theory Spec2Isabelle
  imports Complex_Main "HOL-Library.Word"
begin

section \<open>Data model (types.ts, errors.ts)\<close>

text \<open>
  A JavaScript \<open>number\<close> is modelled by the rational it denotes, so that negative and
  fractional values exist in the model; \<open>NaN\<close> and the infinities are not values of the
  model, and the arithmetic of the validator (\<open>+\<close>, \<open><=\<close>, \<open>!==\<close>) is the exact one.
  A \<open>string\<close> is represented by the sequence of its UTF-8 code units (a HOL \<open>char\<close> is
  one byte), a \<open>Buffer\<close> by its list of bytes; a string with an unpaired surrogate has
  no such representation and is not a value of the model.
\<close>

type_synonym number = rat
type_synonym Buffer = "8 word list"

text \<open>
  Modelled from the spec: \<open>UTXOId\<close> of \<open>types.ts\<close>, which is not among the sources; the
  two fields the codec writes and reads.
\<close>

record UTXOId =
  txId :: string
  outputIndex :: number

text \<open>
  Modelled from the spec: \<open>TransactionInput\<close> of \<open>types.ts\<close>; the three fields the codec
  writes and reads.
\<close>

record TransactionInput =
  utxoId :: UTXOId
  owner :: string
  signature :: string

text \<open>
  Modelled from the spec: \<open>TransactionOutput\<close> of \<open>types.ts\<close>; the two fields the codec
  writes and reads.
\<close>

record TransactionOutput =
  amount :: number
  recipient :: string

text \<open>
  Modelled from the spec: \<open>Transaction\<close> of \<open>types.ts\<close>; the four fields the codec
  writes and reads. The field \<open>id\<close> of the source is \<open>id_tx\<close> here (\<open>id\<close> is the
  identity function of HOL).
\<close>

record Transaction =
  id_tx :: string
  timestamp :: number
  inputs :: "TransactionInput list"
  outputs :: "TransactionOutput list"

section \<open>Primitives of the runtime used by the codec\<close>

text \<open>
  The codec throws \<open>Error('String too long')\<close>, \<open>Error('Inputs too long')\<close> and
  \<open>Error('Outputs too long')\<close> itself. Every other failure is a \<open>RangeError\<close> of the
  runtime: \<open>BigInt(num)\<close> on a number that is not an integer, \<open>writeBigUInt64BE\<close> on a
  value outside \<open>[0, 2^64)\<close>, \<open>readUInt8\<close> and \<open>readBigUInt64BE\<close> on an offset
  whose bytes are not all inside the buffer.
\<close>

datatype error = StringTooLong | InputsTooLong | OutputsTooLong | RangeError

text \<open>
  \<open>Buffer.from(str, 'utf8')\<close> and \<open>buffer.toString('utf8')\<close>: with a string represented by
  its UTF-8 code units, each is the change of type of the other. The replacement of
  ill-formed sequences by U+FFFD is not modelled.
\<close>

definition Buffer_from_utf8 :: "string \<Rightarrow> Buffer" where
  "Buffer_from_utf8 str = map (\<lambda>c. of_nat (of_char c)) str"

definition toString_utf8 :: "Buffer \<Rightarrow> string" where
  "toString_utf8 data = map (\<lambda>b. char_of (unat b)) data"

text \<open>\<open>buffer.subarray(start, end)\<close> clamps both indices to the buffer and never throws.\<close>

definition subarray :: "Buffer \<Rightarrow> nat \<Rightarrow> nat \<Rightarrow> Buffer" where
  "subarray buffer start end = take (end - start) (drop start buffer)"

definition BigInt :: "number \<Rightarrow> error + int" where
  "BigInt num = (if of_int \<lfloor>num\<rfloor> = num then Inr \<lfloor>num\<rfloor> else Inl RangeError)"

text \<open>The \<open>k\<close> low bytes of \<open>v\<close>, most significant first.\<close>

fun be_bytes :: "nat \<Rightarrow> nat \<Rightarrow> Buffer" where
  "be_bytes 0 v = []"
| "be_bytes (Suc k) v = be_bytes k (v div 256) @ [of_nat (v mod 256)]"

definition be_value :: "Buffer \<Rightarrow> nat" where
  "be_value bs = foldl (\<lambda>acc b. acc * 256 + unat b) 0 bs"

definition writeBigUInt64BE :: "int \<Rightarrow> error + Buffer" where
  "writeBigUInt64BE v =
     (if 0 \<le> v \<and> v < 2 ^ 64 then Inr (be_bytes 8 (nat v)) else Inl RangeError)"

definition readUInt8 :: "Buffer \<Rightarrow> nat \<Rightarrow> error + nat" where
  "readUInt8 buffer offset =
     (if offset < length buffer then Inr (unat (buffer ! offset)) else Inl RangeError)"

definition readBigUInt64BE :: "Buffer \<Rightarrow> nat \<Rightarrow> error + nat" where
  "readBigUInt64BE buffer offset =
     (if offset + 8 \<le> length buffer then Inr (be_value (take 8 (drop offset buffer)))
      else Inl RangeError)"

text \<open>
  \<open>Number(bigint)\<close> rounds to the nearest double, ties to even: an integer below \<open>2^53\<close>
  is kept, a longer one keeps its 53 leading bits.
\<close>

fun bit_length :: "nat \<Rightarrow> nat" where
  "bit_length n = (if n = 0 then 0 else Suc (bit_length (n div 2)))"

declare bit_length.simps [simp del]

definition Number_of_BigInt :: "nat \<Rightarrow> number" where
  "Number_of_BigInt v =
     (if v < 2 ^ 53 then of_nat v
      else let e = bit_length v - 53;
               q = v div 2 ^ e;
               r = v mod 2 ^ e;
               h = 2 ^ (e - 1)
           in of_nat ((if h < r \<or> (r = h \<and> odd q) then q + 1 else q) * 2 ^ e))"

section \<open>Encoding (binary-encoding.ts)\<close>

text \<open>
  A call that may throw is followed by the rest of the function through \<open>bindE\<close>: the
  error of the call, if any, is the error of the whole.
\<close>

definition bindE :: "error + 'a \<Rightarrow> ('a \<Rightarrow> error + 'b) \<Rightarrow> error + 'b" where
  "bindE m f = (case m of Inl e \<Rightarrow> Inl e | Inr x \<Rightarrow> f x)"

definition writeString :: "string \<Rightarrow> error + Buffer" where
  "writeString str =
     (let data = Buffer_from_utf8 str
      in if length data > 255 then Inl StringTooLong
         else Inr ([of_nat (length data)] @ data))"

definition writeNumber :: "number \<Rightarrow> error + Buffer" where
  "writeNumber num = bindE (BigInt num) writeBigUInt64BE"

text \<open>
  \<open>parts\<close> is the array the caller accumulates; a throw of one of the four writes leaves
  the function, and the caller, with the error.
\<close>

definition writeInput :: "TransactionInput \<Rightarrow> Buffer list \<Rightarrow> error + Buffer list" where
  "writeInput input parts =
     bindE (writeString (txId (utxoId input))) (\<lambda>b1.
     bindE (writeNumber (outputIndex (utxoId input))) (\<lambda>b2.
     bindE (writeString (owner input)) (\<lambda>b3.
     bindE (writeString (signature input)) (\<lambda>b4.
       Inr (parts @ [b1, b2, b3, b4])))))"

definition writeOutput :: "TransactionOutput \<Rightarrow> Buffer list \<Rightarrow> error + Buffer list" where
  "writeOutput output parts =
     bindE (writeNumber (amount output)) (\<lambda>b1.
     bindE (writeString (recipient output)) (\<lambda>b2.
       Inr (parts @ [b1, b2])))"

text \<open>The two \<open>for ... of\<close> loops of \<open>encodeTransaction\<close>.\<close>

fun writeInputs :: "TransactionInput list \<Rightarrow> Buffer list \<Rightarrow> error + Buffer list" where
  "writeInputs [] parts = Inr parts"
| "writeInputs (input # rest) parts = bindE (writeInput input parts) (writeInputs rest)"

fun writeOutputs :: "TransactionOutput list \<Rightarrow> Buffer list \<Rightarrow> error + Buffer list" where
  "writeOutputs [] parts = Inr parts"
| "writeOutputs (output # rest) parts = bindE (writeOutput output parts) (writeOutputs rest)"

definition encodeTransaction :: "Transaction \<Rightarrow> error + Buffer" where
  "encodeTransaction transaction =
     bindE (writeString (id_tx transaction)) (\<lambda>b1.
     bindE (writeNumber (timestamp transaction)) (\<lambda>b2.
       if length (inputs transaction) > 255 then Inl InputsTooLong
       else
         bindE (writeInputs (inputs transaction)
                  [b1, b2, [of_nat (length (inputs transaction))]]) (\<lambda>parts.
           if length (outputs transaction) > 255 then Inl OutputsTooLong
           else
             bindE (writeOutputs (outputs transaction)
                      (parts @ [[of_nat (length (outputs transaction))]])) (\<lambda>parts'.
               Inr (concat parts')))))"

section \<open>Decoding (binary-encoding.ts)\<close>

text \<open>Each reader returns the value and \<open>nextOffset\<close>.\<close>

definition readString :: "Buffer \<Rightarrow> nat \<Rightarrow> error + (string \<times> nat)" where
  "readString buffer offset =
     bindE (readUInt8 buffer offset) (\<lambda>len.
       let start = offset + 1;
           end = start + len;
           value = toString_utf8 (subarray buffer start end)
       in Inr (value, end))"

definition readNumber :: "Buffer \<Rightarrow> nat \<Rightarrow> error + (number \<times> nat)" where
  "readNumber buffer offset =
     bindE (readBigUInt64BE buffer offset) (\<lambda>v.
       Inr (Number_of_BigInt v, offset + 8))"

definition readInput :: "Buffer \<Rightarrow> nat \<Rightarrow> error + (TransactionInput \<times> nat)" where
  "readInput buffer offset =
     bindE (readString buffer offset) (\<lambda>(txId', offsetOne).
     bindE (readNumber buffer offsetOne) (\<lambda>(outputIndex', offsetTwo).
     bindE (readString buffer offsetTwo) (\<lambda>(owner', offsetThree).
     bindE (readString buffer offsetThree) (\<lambda>(signature', offsetFour).
       Inr (\<lparr>utxoId = \<lparr>txId = txId', outputIndex = outputIndex'\<rparr>,
             owner = owner', signature = signature'\<rparr>, offsetFour)))))"

definition readOutput :: "Buffer \<Rightarrow> nat \<Rightarrow> error + (TransactionOutput \<times> nat)" where
  "readOutput buffer offset =
     bindE (readNumber buffer offset) (\<lambda>(amount', offsetOne).
     bindE (readString buffer offsetOne) (\<lambda>(recipient', offsetTwo).
       Inr (\<lparr>amount = amount', recipient = recipient'\<rparr>, offsetTwo)))"

text \<open>
  The two counted loops of \<open>decodeTransaction\<close>: \<open>n\<close> is the number of iterations left,
  the result the elements pushed and the offset after the last one.
\<close>

fun readInputs :: "Buffer \<Rightarrow> nat \<Rightarrow> nat \<Rightarrow> error + (TransactionInput list \<times> nat)" where
  "readInputs buffer offset 0 = Inr ([], offset)"
| "readInputs buffer offset (Suc n) =
     bindE (readInput buffer offset) (\<lambda>(input, nextOffset).
     bindE (readInputs buffer nextOffset n) (\<lambda>(rest, final).
       Inr (input # rest, final)))"

fun readOutputs :: "Buffer \<Rightarrow> nat \<Rightarrow> nat \<Rightarrow> error + (TransactionOutput list \<times> nat)" where
  "readOutputs buffer offset 0 = Inr ([], offset)"
| "readOutputs buffer offset (Suc n) =
     bindE (readOutput buffer offset) (\<lambda>(output, nextOffset).
     bindE (readOutputs buffer nextOffset n) (\<lambda>(rest, final).
       Inr (output # rest, final)))"

definition decodeTransaction :: "Buffer \<Rightarrow> error + Transaction" where
  "decodeTransaction buffer =
     bindE (readString buffer 0) (\<lambda>(id', offsetOne).
     bindE (readNumber buffer offsetOne) (\<lambda>(timestamp', offsetTwo).
     bindE (readUInt8 buffer offsetTwo) (\<lambda>inputsAmount.
     bindE (readInputs buffer (offsetTwo + 1) inputsAmount) (\<lambda>(inputs', offset).
     bindE (readUInt8 buffer offset) (\<lambda>outputsAmount.
     bindE (readOutputs buffer (offset + 1) outputsAmount) (\<lambda>(outputs', offset').
       Inr \<lparr>id_tx = id', timestamp = timestamp', inputs = inputs', outputs = outputs'\<rparr>))))))"

section \<open>Limits of the codec and the byte layout\<close>

text \<open>
  A non-negative integer is a JavaScript number when it is below \<open>2^53\<close> or has at most 53
  significant bits. \<open>u64_number\<close> is what the codec can carry: such an integer below
  \<open>2^64\<close>.
\<close>

definition js_integer :: "nat \<Rightarrow> bool" where
  "js_integer n = (n < 2 ^ 53 \<or> n mod 2 ^ (bit_length n - 53) = 0)"

definition u64_number :: "number \<Rightarrow> bool" where
  "u64_number x = (of_int \<lfloor>x\<rfloor> = x \<and> 0 \<le> x \<and> x < 2 ^ 64 \<and> js_integer (nat \<lfloor>x\<rfloor>))"

definition string_ok :: "string \<Rightarrow> bool" where
  "string_ok s = (length (Buffer_from_utf8 s) \<le> 255)"

definition input_ok :: "TransactionInput \<Rightarrow> bool" where
  "input_ok i = (string_ok (txId (utxoId i)) \<and> u64_number (outputIndex (utxoId i)) \<and>
     string_ok (owner i) \<and> string_ok (signature i))"

definition output_ok :: "TransactionOutput \<Rightarrow> bool" where
  "output_ok out = (u64_number (amount out) \<and> string_ok (recipient out))"

definition within_limits :: "Transaction \<Rightarrow> bool" where
  "within_limits tx = (string_ok (id_tx tx) \<and> u64_number (timestamp tx) \<and>
     length (inputs tx) \<le> 255 \<and> list_all input_ok (inputs tx) \<and>
     length (outputs tx) \<le> 255 \<and> list_all output_ok (outputs tx))"

text \<open>The bytes each field occupies in the encoding of a transaction within the limits.\<close>

definition string_bytes :: "string \<Rightarrow> Buffer" where
  "string_bytes s = of_nat (length (Buffer_from_utf8 s)) # Buffer_from_utf8 s"

definition number_bytes :: "number \<Rightarrow> Buffer" where
  "number_bytes x = be_bytes 8 (nat \<lfloor>x\<rfloor>)"

definition input_bytes :: "TransactionInput \<Rightarrow> Buffer" where
  "input_bytes i = string_bytes (txId (utxoId i)) @ number_bytes (outputIndex (utxoId i)) @
     string_bytes (owner i) @ string_bytes (signature i)"

definition output_bytes :: "TransactionOutput \<Rightarrow> Buffer" where
  "output_bytes out = number_bytes (amount out) @ string_bytes (recipient out)"

definition transaction_bytes :: "Transaction \<Rightarrow> Buffer" where
  "transaction_bytes tx = string_bytes (id_tx tx) @ number_bytes (timestamp tx) @
     [of_nat (length (inputs tx))] @ concat (map input_bytes (inputs tx)) @
     [of_nat (length (outputs tx))] @ concat (map output_bytes (outputs tx))"

text \<open>
  The bytes before the count of the outputs, and a buffer without its last three bytes
  (\<open>buffer.subarray(0, buffer.length - 3)\<close>).
\<close>

definition truncate3 :: "Buffer \<Rightarrow> Buffer" where
  "truncate3 buffer = take (length buffer - 3) buffer"

definition header_bytes :: "Transaction \<Rightarrow> Buffer" where
  "header_bytes tx = string_bytes (id_tx tx) @ number_bytes (timestamp tx) @
     [of_nat (length (inputs tx))] @ concat (map input_bytes (inputs tx))"

text \<open>
  What \<open>writeNumber\<close> accepts, and the strings and numbers of a transaction in the order
  the encoder meets them.
\<close>

definition u64_range :: "number \<Rightarrow> bool" where
  "u64_range x = (of_int \<lfloor>x\<rfloor> = x \<and> 0 \<le> x \<and> x < 2 ^ 64)"

definition input_strings :: "TransactionInput \<Rightarrow> string list" where
  "input_strings i = [txId (utxoId i), owner i, signature i]"

definition strings_of :: "Transaction \<Rightarrow> string list" where
  "strings_of tx = id_tx tx # concat (map input_strings (inputs tx)) @ map recipient (outputs tx)"

definition numbers_of :: "Transaction \<Rightarrow> number list" where
  "numbers_of tx = timestamp tx # map (\<lambda>i. outputIndex (utxoId i)) (inputs tx) @
     map amount (outputs tx)"

text \<open>What an outcome of a writer says about the strings and numbers it was given.\<close>

definition outcome_sound :: "error + 'a \<Rightarrow> string list \<Rightarrow> number list \<Rightarrow> bool" where
  "outcome_sound r strs nums =
     (case r of
        Inr _ \<Rightarrow> list_all string_ok strs \<and> list_all u64_range nums
      | Inl e \<Rightarrow> (e = StringTooLong \<and> \<not> list_all string_ok strs) \<or>
                 (e = RangeError \<and> \<not> list_all u64_range nums))"

definition strings_within :: "Transaction \<Rightarrow> bool" where
  "strings_within tx = list_all string_ok (strings_of tx)"

definition numbers_within :: "Transaction \<Rightarrow> bool" where
  "numbers_within tx = list_all u64_number (numbers_of tx)"

section \<open>Validator (transaction-validator.ts)\<close>

text \<open>
  Modelled from the spec: \<open>VALIDATION_ERRORS\<close> of \<open>errors.ts\<close>, which is not among the
  sources; the seven error kinds of the specification, under the names the validator uses.
\<close>

datatype VALIDATION_ERRORS =
    EMPTY_INPUTS | EMPTY_OUTPUTS | UTXO_NOT_FOUND | NEGATIVE_AMOUNT
  | INVALID_SIGNATURE | DOUBLE_SPENDING | AMOUNT_MISMATCH

text \<open>
  A template literal is kept as its fragments, literal text and interpolated numbers, in
  order: how the runtime prints a number is not modelled. Two texts made by the same
  template are equal exactly when their fragments are.
\<close>

datatype fragment = Lit string | Num number

type_synonym template = "fragment list"

text \<open>
  Modelled from the spec: \<open>ValidationError\<close> of \<open>errors.ts\<close>, \<open>{ kind, message }\<close>.
\<close>

record ValidationError =
  kind :: VALIDATION_ERRORS
  message :: template

text \<open>
  Modelled from the spec: \<open>ValidationResult\<close> of \<open>errors.ts\<close>, \<open>{ valid, errors }\<close>.
\<close>

record ValidationResult =
  valid :: bool
  errors :: "ValidationError list"

text \<open>
  Modelled from the spec: \<open>createValidationError\<close> of \<open>errors.ts\<close>, which builds the
  error of a kind and a message.
\<close>

definition createValidationError :: "VALIDATION_ERRORS \<Rightarrow> template \<Rightarrow> ValidationError" where
  "createValidationError k m = \<lparr>kind = k, message = m\<rparr>"

text \<open>
  Modelled from the spec: \<open>UTXO\<close> of \<open>types.ts\<close>, which is not among the sources: the
  amount, the recipient and the \<open>UTXOId\<close> of the output. The validator reads the amount
  only.
\<close>

record UTXO =
  utxo_id :: UTXOId
  utxo_amount :: number
  utxo_recipient :: string

text \<open>
  Modelled from the spec: \<open>getUTXOKey\<close> of \<open>types.ts\<close>, the canonical form
  \<open>txId:outputIndex\<close> of a \<open>UTXOId\<close>.
\<close>

definition getUTXOKey :: "UTXOId \<Rightarrow> template" where
  "getUTXOKey u = [Lit (txId u), Lit '':'', Num (outputIndex u)]"

text \<open>
  The collaborators of the validator: the pool it is constructed with (\<open>getUTXO\<close> returns
  the UTXO or nothing), \<open>verify\<close> of \<open>utils/crypto\<close>, and \<open>JSON.stringify\<close> of the
  runtime, which takes the value it prints as a tree. They are fields of the validator
  object \<open>this\<close>, so that every property holds for every pool, every verifier and every
  way of printing.
\<close>

datatype json =
    JString string
  | JNumber number
  | JArray "json list"
  | JObject "(string \<times> json) list"

record UTXOPoolManager =
  getUTXO :: "string \<Rightarrow> number \<Rightarrow> UTXO option"

record TransactionValidator =
  utxoPool :: UTXOPoolManager
  verify :: "string \<Rightarrow> string \<Rightarrow> string \<Rightarrow> bool"
  JSON_stringify :: "json \<Rightarrow> string"

definition validateNonEmptyInputsAndOutputs :: "Transaction \<Rightarrow> ValidationError list" where
  "validateNonEmptyInputsAndOutputs transaction =
     (let errs = [];
          errs = (if length (inputs transaction) = 0
                    then errs @ [createValidationError EMPTY_INPUTS [Lit ''Empty inputs'']]
                    else errs);
          errs = (if length (outputs transaction) = 0
                    then errs @ [createValidationError EMPTY_OUTPUTS [Lit ''Empty outputs'']]
                    else errs)
      in errs)"

text \<open>
  The loop of \<open>validateBalance\<close> over the outputs; the state is
  \<open>(errors, outputsTotal)\<close>. The array \<open>errors\<close> of the source is \<open>errs\<close> here
  (\<open>errors\<close> is the field of the result).
\<close>

fun validateBalance_loop ::
  "TransactionOutput list \<Rightarrow> ValidationError list \<times> number \<Rightarrow> ValidationError list \<times> number"
where
  "validateBalance_loop [] (errs, outputsTotal) = (errs, outputsTotal)"
| "validateBalance_loop (output # rest) (errs, outputsTotal) =
     validateBalance_loop rest
       (if amount output \<le> 0
        then errs @ [createValidationError NEGATIVE_AMOUNT
               [Lit ''Output amount can not be negative or zero: '', Num (amount output)]]
        else errs,
        outputsTotal + amount output)"

definition validateBalance :: "number \<Rightarrow> Transaction \<Rightarrow> ValidationError list" where
  "validateBalance inputsTotal transaction =
     (let (errs, outputsTotal) = validateBalance_loop (outputs transaction) ([], 0)
      in if inputsTotal \<noteq> outputsTotal
         then errs @ [createValidationError AMOUNT_MISMATCH
                [Lit ''AMOUNTS MISMATCH: '', Num inputsTotal, Lit '' != '', Num outputsTotal]]
         else errs)"

text \<open>\<open>utxos\<close> and \<open>errors\<close> are mutated by the source; here they are returned.\<close>

definition validateDoubleSpending ::
  "TransactionInput \<Rightarrow> template set \<Rightarrow> ValidationError list \<Rightarrow> template set \<times> ValidationError list"
where
  "validateDoubleSpending input utxos errs =
     (let utxoKey = getUTXOKey (utxoId input)
      in if utxoKey \<in> utxos
         then (utxos, errs @ [createValidationError DOUBLE_SPENDING
                 (Lit ''This UTXO is referenced multiple times within the same transaction: ''
                  # utxoKey)])
         else (insert utxoKey utxos, errs))"

text \<open>
  \<open>createTransactionDataForSigning_\<close> of the source (a name cannot end with an underscore
  here). The object \<open>unsignedTx\<close> has the keys \<open>id\<close>, \<open>inputs\<close>, \<open>outputs\<close>,
  \<open>timestamp\<close> in this order; \<open>utxoId\<close> and the outputs are objects of the transaction,
  printed with the properties of their types.
\<close>

definition createTransactionDataForSigning :: "TransactionValidator \<Rightarrow> Transaction \<Rightarrow> string" where
  "createTransactionDataForSigning this transaction =
     (let unsignedTx = JObject
            [(''id'', JString (id_tx transaction)),
             (''inputs'', JArray (map (\<lambda>input. JObject
                [(''utxoId'', JObject [(''txId'', JString (txId (utxoId input))),
                                      (''outputIndex'', JNumber (outputIndex (utxoId input)))]),
                 (''owner'', JString (owner input))]) (inputs transaction))),
             (''outputs'', JArray (map (\<lambda>output. JObject
                [(''amount'', JNumber (amount output)),
                 (''recipient'', JString (recipient output))]) (outputs transaction))),
             (''timestamp'', JNumber (timestamp transaction))]
      in JSON_stringify this unsignedTx)"

definition validateInputSignature ::
  "TransactionValidator \<Rightarrow> Transaction \<Rightarrow> TransactionInput \<Rightarrow> ValidationError list
     \<Rightarrow> ValidationError list"
where
  "validateInputSignature this transaction input errs =
     (let transactionData = createTransactionDataForSigning this transaction;
          isValid = verify this transactionData (signature input) (owner input)
      in if \<not> isValid
         then errs @ [createValidationError INVALID_SIGNATURE [Lit ''invalid signature'']]
         else errs)"

text \<open>
  The body and the loop of \<open>validateTransaction\<close> over the inputs; the state is
  \<open>(errors, imputTotal, utxos)\<close>.
\<close>

definition validateInput ::
  "TransactionValidator \<Rightarrow> Transaction \<Rightarrow> TransactionInput
     \<Rightarrow> ValidationError list \<times> number \<times> template set \<Rightarrow> ValidationError list \<times> number \<times> template set"
where
  "validateInput this transaction input st =
     (case st of (errs, imputTotal, utxos) \<Rightarrow>
        (case getUTXO (utxoPool this) (txId (utxoId input)) (outputIndex (utxoId input)) of
           None \<Rightarrow>
             (errs @ [createValidationError UTXO_NOT_FOUND
                [Lit ''Utxo not found: '', Lit (txId (utxoId input)), Lit '':'',
                 Num (outputIndex (utxoId input))]],
              imputTotal, utxos)
         | Some utxo \<Rightarrow>
             (let errs = (if utxo_amount utxo \<le> 0
                            then errs @ [createValidationError NEGATIVE_AMOUNT
                                   [Lit ''Utxo amount must be positive'']]
                            else errs);
                  imputTotal = imputTotal + utxo_amount utxo;
                  errs = validateInputSignature this transaction input errs;
                  (utxos, errs) = validateDoubleSpending input utxos errs
              in (errs, imputTotal, utxos))))"

fun validateInputs ::
  "TransactionValidator \<Rightarrow> Transaction \<Rightarrow> TransactionInput list
     \<Rightarrow> ValidationError list \<times> number \<times> template set \<Rightarrow> ValidationError list \<times> number \<times> template set"
where
  "validateInputs this transaction [] st = st"
| "validateInputs this transaction (input # rest) st =
     validateInputs this transaction rest (validateInput this transaction input st)"

definition validateTransaction :: "TransactionValidator \<Rightarrow> Transaction \<Rightarrow> ValidationResult" where
  "validateTransaction this transaction =
     (let errs = [] @ validateNonEmptyInputsAndOutputs transaction;
          (errs, imputTotal, utxos) =
             validateInputs this transaction (inputs transaction) (errs, 0, {});
          errs = errs @ validateBalance imputTotal transaction
      in \<lparr>valid = (length errs = 0), errors = errs\<rparr>)"

section \<open>What the validator is asked and what it reports\<close>

text \<open>
  The UTXO an input refers to, if the pool has it; the sum of the amounts of the inputs that
  resolve and the sum of the outputs; the kinds of the errors of a result; the number of
  \<open>DOUBLE_SPENDING\<close> errors in a list.
\<close>

definition lookup :: "TransactionValidator \<Rightarrow> TransactionInput \<Rightarrow> UTXO option" where
  "lookup this input = getUTXO (utxoPool this) (txId (utxoId input)) (outputIndex (utxoId input))"

definition inputs_sum :: "TransactionValidator \<Rightarrow> Transaction \<Rightarrow> number" where
  "inputs_sum this tx = sum_list (map utxo_amount (List.map_filter (lookup this) (inputs tx)))"

definition outputs_sum :: "Transaction \<Rightarrow> number" where
  "outputs_sum tx = sum_list (map amount (outputs tx))"

definition kinds :: "ValidationResult \<Rightarrow> VALIDATION_ERRORS list" where
  "kinds r = map kind (errors r)"

definition ds_count :: "ValidationError list \<Rightarrow> nat" where
  "ds_count errs = length (filter (\<lambda>e. kind e = DOUBLE_SPENDING) errs)"

section \<open>Sample values\<close>

definition sample_input :: TransactionInput where
  "sample_input = \<lparr>utxoId = \<lparr>txId = ''genesis'', outputIndex = 0\<rparr>,
                    owner = ''alice'', signature = ''sig''\<rparr>"

definition sample_tx :: Transaction where
  "sample_tx = \<lparr>id_tx = ''tx1'', timestamp = 1700000000, inputs = [sample_input],
                 outputs = [\<lparr>amount = 100, recipient = ''bob''\<rparr>]\<rparr>"

definition long_string :: "nat \<Rightarrow> string" where
  "long_string n = replicate n CHR ''a''"

definition sample_utxo :: UTXO where
  "sample_utxo = \<lparr>utxo_id = \<lparr>txId = ''genesis'', outputIndex = 0\<rparr>, utxo_amount = 100,
                   utxo_recipient = ''alice''\<rparr>"

definition sample_validator :: TransactionValidator where
  "sample_validator =
     \<lparr>utxoPool = \<lparr>getUTXO = (\<lambda>t i. if t = ''genesis'' \<and> i = 0 then Some sample_utxo else None)\<rparr>,
      verify = (\<lambda>m s k. s = ''sig''),
      JSON_stringify = (\<lambda>j. ''payload'')\<rparr>"

definition missing_input :: TransactionInput where
  "missing_input = sample_input\<lparr>utxoId := \<lparr>txId = ''missing'', outputIndex = 0\<rparr>\<rparr>"

definition debt_validator :: TransactionValidator where
  "debt_validator = sample_validator
     \<lparr>utxoPool := \<lparr>getUTXO = (\<lambda>t i. Some (sample_utxo\<lparr>utxo_amount := - 5\<rparr>))\<rparr>\<rparr>"

definition strict_validator :: TransactionValidator where
  "strict_validator = sample_validator\<lparr>verify := (\<lambda>m s k. s = ''sig'' \<and> m = ''payload'')\<rparr>"

section \<open>The codec: writers and readers on the layout\<close>

lemma bindE_simps [simp]:
  "bindE (Inl e) f = Inl e"
  "bindE (Inr x) f = f x"
  by (simp_all add: bindE_def)

lemma bindE_eq_Inr: "bindE m f = Inr y \<longleftrightarrow> (\<exists>x. m = Inr x \<and> f x = Inr y)"
  by (cases m) simp_all

lemma toString_Buffer_from [simp]: "toString_utf8 (Buffer_from_utf8 s) = s"
  by (induction s) (simp_all add: toString_utf8_def Buffer_from_utf8_def unat_of_nat)

lemma length_Buffer_from [simp]: "length (Buffer_from_utf8 s) = length s"
  by (simp add: Buffer_from_utf8_def)

lemma length_be_bytes [simp]: "length (be_bytes k v) = k"
  by (induction k arbitrary: v) simp_all

lemma be_value_snoc: "be_value (bs @ [b]) = be_value bs * 256 + unat b"
  by (simp add: be_value_def)

lemma be_value_be_bytes: "be_value (be_bytes k v) = v mod 256 ^ k"
proof (induction k arbitrary: v)
  case 0
  show ?case by (simp add: be_value_def)
next
  case (Suc k)
  have "be_value (be_bytes (Suc k) v) = (v div 256 mod 256 ^ k) * 256 + v mod 256"
    by (simp add: be_value_snoc Suc unat_of_nat)
  also have "\<dots> = v mod 256 ^ Suc k"
    by (simp add: mod_mult2_eq)
  finally show ?case .
qed

lemma Number_of_BigInt_exact:
  assumes "js_integer n"
  shows "Number_of_BigInt n = of_nat n"
proof (cases "n < 2 ^ 53")
  case True
  then show ?thesis by (simp add: Number_of_BigInt_def)
next
  case False
  define e where "e = bit_length n - 53"
  from assms False have r: "n mod 2 ^ e = 0"
    by (simp add: js_integer_def e_def)
  then have q: "n div 2 ^ e * 2 ^ e = n"
    by (simp add: mod_eq_0_iff_dvd)
  have h: "\<not> (2::nat) ^ (e - 1) < 0" "(0::nat) \<noteq> 2 ^ (e - 1)"
    by simp_all
  from False show ?thesis
    unfolding Number_of_BigInt_def Let_def e_def [symmetric] r
    using q h by simp
qed


lemma writeString_Inr:
  "writeString s = Inr bs \<longleftrightarrow> length s \<le> 255 \<and> bs = of_nat (length s) # Buffer_from_utf8 s"
  by (auto simp: writeString_def Let_def)

lemma writeString_Inl:
  "writeString s = Inl e \<longleftrightarrow> 255 < length s \<and> e = StringTooLong"
  by (auto simp: writeString_def Let_def)

lemma writeNumber_Inr:
  "writeNumber x = Inr bs \<longleftrightarrow>
     of_int \<lfloor>x\<rfloor> = x \<and> 0 \<le> x \<and> x < 2 ^ 64 \<and> bs = be_bytes 8 (nat \<lfloor>x\<rfloor>)"
proof -
  have "\<lfloor>x\<rfloor> < 2 ^ 64 \<longleftrightarrow> x < 2 ^ 64"
    using floor_less_iff [of x "2 ^ 64"] by simp
  then show ?thesis
    by (auto simp: writeNumber_def BigInt_def writeBigUInt64BE_def)
qed

lemma writeNumber_Inl:
  "writeNumber x = Inl e \<longleftrightarrow>
     e = RangeError \<and> \<not> (of_int \<lfloor>x\<rfloor> = x \<and> 0 \<le> x \<and> x < 2 ^ 64)"
proof -
  have "\<lfloor>x\<rfloor> < 2 ^ 64 \<longleftrightarrow> x < 2 ^ 64"
    using floor_less_iff [of x "2 ^ 64"] by simp
  then show ?thesis
    by (auto simp: writeNumber_def BigInt_def writeBigUInt64BE_def)
qed

lemma drop_after: "drop off buf = bs @ rest \<Longrightarrow> drop (off + length bs) buf = rest"
  by (metis add.commute append_eq_conv_conj drop_drop)

lemma drop_Cons_less: "drop off buf = b # rest \<Longrightarrow> off < length buf \<and> buf ! off = b"
  by (metis drop_eq_Nil hd_drop_conv_nth list.distinct(1) list.sel(1) not_le)

lemma readUInt8_drop: "drop off buf = b # rest \<Longrightarrow> readUInt8 buf off = Inr (unat b)"
  using drop_Cons_less [of off buf b rest] by (simp add: readUInt8_def)

lemma readString_drop:
  assumes "drop off buf = of_nat (length s) # Buffer_from_utf8 s @ rest" "length s \<le> 255"
  shows "readString buf off = Inr (s, off + 1 + length s)"
proof -
  have len: "unat (of_nat (length s) :: 8 word) = length s"
    using assms(2) by (simp add: unat_of_nat)
  have "drop (off + 1) buf = Buffer_from_utf8 s @ rest"
    using drop_after [of off buf "[of_nat (length s)]" "Buffer_from_utf8 s @ rest"] assms(1)
    by simp
  then have "subarray buf (off + 1) (off + 1 + length s) = Buffer_from_utf8 s"
    by (simp add: subarray_def)
  then show ?thesis
    using readUInt8_drop [OF assms(1)] by (simp add: readString_def len Let_def)
qed

lemma readNumber_drop:
  assumes "drop off buf = be_bytes 8 v @ rest" "v < 2 ^ 64" "js_integer v"
  shows "readNumber buf off = Inr (of_nat v, off + 8)"
proof -
  have "length (drop off buf) = 8 + length rest"
    by (simp only: assms(1) length_append length_be_bytes)
  then have le: "off + 8 \<le> length buf" by simp
  have "take 8 (drop off buf) = be_bytes 8 v"
    by (simp only: assms(1)) simp
  then have "readBigUInt64BE buf off = Inr (v mod 256 ^ 8)"
    using le by (simp add: readBigUInt64BE_def be_value_be_bytes)
  moreover have "v mod 256 ^ 8 = v" using assms(2) by simp
  ultimately show ?thesis
    by (simp add: readNumber_def Number_of_BigInt_exact [OF assms(3)])
qed


lemma writeString_ok: "string_ok s \<Longrightarrow> writeString s = Inr (string_bytes s)"
  by (simp add: string_ok_def writeString_Inr string_bytes_def)

lemma writeNumber_ok: "u64_number x \<Longrightarrow> writeNumber x = Inr (number_bytes x)"
  by (simp add: u64_number_def writeNumber_Inr number_bytes_def)

lemma writeInput_ok:
  "input_ok i \<Longrightarrow> writeInput i parts =
     Inr (parts @ [string_bytes (txId (utxoId i)), number_bytes (outputIndex (utxoId i)),
                   string_bytes (owner i), string_bytes (signature i)])"
  by (simp add: input_ok_def writeInput_def writeString_ok writeNumber_ok)

lemma writeOutput_ok:
  "output_ok out \<Longrightarrow> writeOutput out parts =
     Inr (parts @ [number_bytes (amount out), string_bytes (recipient out)])"
  by (simp add: output_ok_def writeOutput_def writeString_ok writeNumber_ok)

lemma writeInputs_ok:
  "list_all input_ok ins \<Longrightarrow>
     \<exists>ps. writeInputs ins parts = Inr ps \<and> concat ps = concat parts @ concat (map input_bytes ins)"
proof (induction ins arbitrary: parts)
  case Nil
  show ?case by simp
next
  case (Cons a ins)
  let ?p = "parts @ [string_bytes (txId (utxoId a)), number_bytes (outputIndex (utxoId a)),
                     string_bytes (owner a), string_bytes (signature a)]"
  from Cons.prems have ok: "input_ok a" "list_all input_ok ins" by simp_all
  from Cons.IH [OF ok(2), of ?p] obtain ps where
    "writeInputs ins ?p = Inr ps" "concat ps = concat ?p @ concat (map input_bytes ins)"
    by blast
  then show ?case
    by (simp add: writeInput_ok [OF ok(1)] input_bytes_def [of a])
qed

lemma writeOutputs_ok:
  "list_all output_ok outs \<Longrightarrow>
     \<exists>ps. writeOutputs outs parts = Inr ps \<and> concat ps = concat parts @ concat (map output_bytes outs)"
proof (induction outs arbitrary: parts)
  case Nil
  show ?case by simp
next
  case (Cons a outs)
  let ?p = "parts @ [number_bytes (amount a), string_bytes (recipient a)]"
  from Cons.prems have ok: "output_ok a" "list_all output_ok outs" by simp_all
  from Cons.IH [OF ok(2), of ?p] obtain ps where
    "writeOutputs outs ?p = Inr ps" "concat ps = concat ?p @ concat (map output_bytes outs)"
    by blast
  then show ?case
    by (simp add: writeOutput_ok [OF ok(1)] output_bytes_def [of a])
qed

lemma encodeTransaction_ok:
  assumes "within_limits tx"
  shows "encodeTransaction tx = Inr (transaction_bytes tx)"
proof -
  let ?p1 = "[string_bytes (id_tx tx), number_bytes (timestamp tx), [of_nat (length (inputs tx))]]"
  from assms obtain ps where ps: "writeInputs (inputs tx) ?p1 = Inr ps"
      "concat ps = concat ?p1 @ concat (map input_bytes (inputs tx))"
    using writeInputs_ok [of "inputs tx" ?p1] by (auto simp: within_limits_def)
  let ?p2 = "ps @ [[of_nat (length (outputs tx))]]"
  from assms obtain qs where qs: "writeOutputs (outputs tx) ?p2 = Inr qs"
      "concat qs = concat ?p2 @ concat (map output_bytes (outputs tx))"
    using writeOutputs_ok [of "outputs tx" ?p2] by (auto simp: within_limits_def)
  from assms have "string_ok (id_tx tx)" "u64_number (timestamp tx)"
      "\<not> 255 < length (inputs tx)" "\<not> 255 < length (outputs tx)"
    by (auto simp: within_limits_def)
  then show ?thesis
    by (simp add: encodeTransaction_def writeString_ok writeNumber_ok ps qs transaction_bytes_def)
qed


lemma u64_number_value: "u64_number x \<Longrightarrow> of_nat (nat \<lfloor>x\<rfloor>) = x"
proof -
  assume a: "u64_number x"
  then have "0 \<le> \<lfloor>x\<rfloor>" by (simp add: u64_number_def)
  then have "(of_nat (nat \<lfloor>x\<rfloor>) :: rat) = of_int \<lfloor>x\<rfloor>" by simp
  with a show ?thesis by (simp add: u64_number_def)
qed

lemma length_number_bytes [simp]: "length (number_bytes x) = 8"
  by (simp add: number_bytes_def)

lemma readString_bytes:
  assumes "string_ok s" "drop off buf = string_bytes s @ rest"
  shows "readString buf off = Inr (s, off + length (string_bytes s))"
  using readString_drop [of off buf s rest] assms
  by (simp add: string_ok_def string_bytes_def)

lemma readNumber_bytes:
  assumes "u64_number x" "drop off buf = number_bytes x @ rest"
  shows "readNumber buf off = Inr (x, off + length (number_bytes x))"
proof -
  from assms(1) have "nat \<lfloor>x\<rfloor> < 2 ^ 64" "js_integer (nat \<lfloor>x\<rfloor>)"
    by (simp_all add: u64_number_def nat_less_iff floor_less_iff)
  with readNumber_drop [of off buf "nat \<lfloor>x\<rfloor>" rest] assms(2)
  show ?thesis by (simp add: number_bytes_def [symmetric] u64_number_value [OF assms(1)])
qed

lemma readInput_bytes:
  assumes "input_ok i" "drop off buf = input_bytes i @ rest"
  shows "readInput buf off = Inr (i, off + length (input_bytes i))"
proof -
  let ?s1 = "string_bytes (txId (utxoId i))" and ?n = "number_bytes (outputIndex (utxoId i))"
  let ?s2 = "string_bytes (owner i)" and ?s3 = "string_bytes (signature i)"
  from assms(1) have ok: "string_ok (txId (utxoId i))" "u64_number (outputIndex (utxoId i))"
      "string_ok (owner i)" "string_ok (signature i)"
    by (simp_all add: input_ok_def)
  have d0: "drop off buf = ?s1 @ (?n @ ?s2 @ ?s3 @ rest)"
    using assms(2) by (simp add: input_bytes_def)
  have d1: "drop (off + length ?s1) buf = ?n @ (?s2 @ ?s3 @ rest)"
    using drop_after [OF d0] by simp
  have d2: "drop (off + length ?s1 + length ?n) buf = ?s2 @ (?s3 @ rest)"
    using drop_after [OF d1] by simp
  have d3: "drop (off + length ?s1 + length ?n + length ?s2) buf = ?s3 @ rest"
    using drop_after [OF d2] by simp
  show ?thesis
    unfolding readInput_def
    by (simp only: readString_bytes [OF ok(1) d0] readNumber_bytes [OF ok(2) d1]
        readString_bytes [OF ok(3) d2] readString_bytes [OF ok(4) d3] bindE_simps prod.case)
      (simp add: input_bytes_def [of i])
qed

lemma readOutput_bytes:
  assumes "output_ok out" "drop off buf = output_bytes out @ rest"
  shows "readOutput buf off = Inr (out, off + length (output_bytes out))"
proof -
  let ?n = "number_bytes (amount out)" and ?s = "string_bytes (recipient out)"
  from assms(1) have ok: "u64_number (amount out)" "string_ok (recipient out)"
    by (simp_all add: output_ok_def)
  have d0: "drop off buf = ?n @ (?s @ rest)"
    using assms(2) by (simp add: output_bytes_def)
  have d1: "drop (off + length ?n) buf = ?s @ rest"
    using drop_after [OF d0] by simp
  show ?thesis
    unfolding readOutput_def
    by (simp only: readNumber_bytes [OF ok(1) d0] readString_bytes [OF ok(2) d1]
        bindE_simps prod.case)
      (simp add: output_bytes_def [of out])
qed


lemma readInputs_bytes:
  "list_all input_ok ins \<Longrightarrow> drop off buf = concat (map input_bytes ins) @ rest \<Longrightarrow>
     readInputs buf off (length ins) = Inr (ins, off + length (concat (map input_bytes ins)))"
proof (induction ins arbitrary: off)
  case Nil
  show ?case by simp
next
  case (Cons a ins)
  from Cons.prems(1) have ok: "input_ok a" "list_all input_ok ins" by simp_all
  have d0: "drop off buf = input_bytes a @ (concat (map input_bytes ins) @ rest)"
    using Cons.prems(2) by simp
  have d1: "drop (off + length (input_bytes a)) buf = concat (map input_bytes ins) @ rest"
    using drop_after [OF d0] .
  have "readInputs buf off (Suc (length ins)) =
      Inr (a # ins, off + length (input_bytes a) + length (concat (map input_bytes ins)))"
    by (simp only: readInputs.simps readInput_bytes [OF ok(1) d0]
        Cons.IH [OF ok(2) d1] bindE_simps prod.case)
  then show ?case by (simp add: add.assoc)
qed

lemma readOutputs_bytes:
  "list_all output_ok outs \<Longrightarrow> drop off buf = concat (map output_bytes outs) @ rest \<Longrightarrow>
     readOutputs buf off (length outs) = Inr (outs, off + length (concat (map output_bytes outs)))"
proof (induction outs arbitrary: off)
  case Nil
  show ?case by simp
next
  case (Cons a outs)
  from Cons.prems(1) have ok: "output_ok a" "list_all output_ok outs" by simp_all
  have d0: "drop off buf = output_bytes a @ (concat (map output_bytes outs) @ rest)"
    using Cons.prems(2) by simp
  have d1: "drop (off + length (output_bytes a)) buf = concat (map output_bytes outs) @ rest"
    using drop_after [OF d0] .
  have "readOutputs buf off (Suc (length outs)) =
      Inr (a # outs, off + length (output_bytes a) + length (concat (map output_bytes outs)))"
    by (simp only: readOutputs.simps readOutput_bytes [OF ok(1) d0]
        Cons.IH [OF ok(2) d1] bindE_simps prod.case)
  then show ?case by (simp add: add.assoc)
qed

lemma unat_length_byte: "n \<le> 255 \<Longrightarrow> unat (of_nat n :: 8 word) = n"
  by (simp add: unat_of_nat)

lemma decodeTransaction_bytes:
  assumes "within_limits tx"
  shows "decodeTransaction (transaction_bytes tx @ extra) = Inr tx"
proof -
  let ?buf = "transaction_bytes tx @ extra"
  let ?s = "string_bytes (id_tx tx)" and ?n = "number_bytes (timestamp tx)"
  let ?ci = "of_nat (length (inputs tx)) :: 8 word"
  let ?is = "concat (map input_bytes (inputs tx))"
  let ?co = "of_nat (length (outputs tx)) :: 8 word"
  let ?os = "concat (map output_bytes (outputs tx))"
  from assms have ok: "string_ok (id_tx tx)" "u64_number (timestamp tx)"
      "length (inputs tx) \<le> 255" "list_all input_ok (inputs tx)"
      "length (outputs tx) \<le> 255" "list_all output_ok (outputs tx)"
    by (simp_all add: within_limits_def)
  have d0: "drop 0 ?buf = ?s @ (?n @ ?ci # ?is @ ?co # ?os @ extra)"
    by (simp add: transaction_bytes_def)
  have d1: "drop (0 + length ?s) ?buf = ?n @ (?ci # ?is @ ?co # ?os @ extra)"
    using drop_after [OF d0] .
  have d2: "drop (0 + length ?s + length ?n) ?buf = [?ci] @ (?is @ ?co # ?os @ extra)"
    using drop_after [OF d1] by simp
  have d3: "drop (0 + length ?s + length ?n + 1) ?buf = ?is @ (?co # ?os @ extra)"
    using drop_after [OF d2] by simp
  have d4: "drop (0 + length ?s + length ?n + 1 + length ?is) ?buf = [?co] @ (?os @ extra)"
    using drop_after [OF d3] by simp
  have d5: "drop (0 + length ?s + length ?n + 1 + length ?is + 1) ?buf = ?os @ extra"
    using drop_after [OF d4] by simp
  have r1: "readString ?buf 0 = Inr (id_tx tx, 0 + length ?s)"
    using readString_bytes [OF ok(1) d0] .
  have r2: "readNumber ?buf (0 + length ?s) = Inr (timestamp tx, 0 + length ?s + length ?n)"
    using readNumber_bytes [OF ok(2) d1] .
  have r3: "readUInt8 ?buf (0 + length ?s + length ?n) = Inr (length (inputs tx))"
    using readUInt8_drop [of "0 + length ?s + length ?n" ?buf ?ci] d2 ok(3)
    by (simp add: unat_length_byte)
  have r4: "readInputs ?buf (0 + length ?s + length ?n + 1) (length (inputs tx)) =
      Inr (inputs tx, 0 + length ?s + length ?n + 1 + length ?is)"
    using readInputs_bytes [OF ok(4) d3] .
  have r5: "readUInt8 ?buf (0 + length ?s + length ?n + 1 + length ?is) = Inr (length (outputs tx))"
    using readUInt8_drop [of "0 + length ?s + length ?n + 1 + length ?is" ?buf ?co] d4 ok(5)
    by (simp add: unat_length_byte)
  have r6: "readOutputs ?buf (0 + length ?s + length ?n + 1 + length ?is + 1) (length (outputs tx)) =
      Inr (outputs tx, 0 + length ?s + length ?n + 1 + length ?is + 1 + length ?os)"
    using readOutputs_bytes [OF ok(6) d5] .
  show ?thesis
    unfolding decodeTransaction_def
    by (simp only: r1 bindE_simps prod.case r2 r3 r4 r5 r6) simp
qed

section \<open>The codec: claims\<close>

lemma sample_tx_within_limits: "within_limits sample_tx"
  by (simp add: within_limits_def sample_tx_def sample_input_def input_ok_def output_ok_def
      string_ok_def u64_number_def js_integer_def)





section \<open>The codec: what a failure of the encoder means\<close>

lemma writeString_cases:
  "(\<exists>bs. writeString s = Inr bs \<and> string_ok s) \<or> (writeString s = Inl StringTooLong \<and> \<not> string_ok s)"
  by (simp add: writeString_def string_ok_def Let_def)

lemma writeNumber_cases:
  "(\<exists>bs. writeNumber x = Inr bs \<and> u64_range x) \<or> (writeNumber x = Inl RangeError \<and> \<not> u64_range x)"
  using writeNumber_Inr [of x] writeNumber_Inl [of x RangeError]
  by (cases "writeNumber x") (auto simp: u64_range_def)

lemma writeInput_sound:
  "outcome_sound (writeInput i parts) (input_strings i) [outputIndex (utxoId i)]"
  using writeString_cases [of "txId (utxoId i)"] writeNumber_cases [of "outputIndex (utxoId i)"]
    writeString_cases [of "owner i"] writeString_cases [of "signature i"]
  by (auto simp: outcome_sound_def writeInput_def input_strings_def)

lemma writeOutput_sound:
  "outcome_sound (writeOutput out parts) [recipient out] [amount out]"
  using writeNumber_cases [of "amount out"] writeString_cases [of "recipient out"]
  by (auto simp: outcome_sound_def writeOutput_def)

lemma writeInputs_sound:
  "outcome_sound (writeInputs ins parts) (concat (map input_strings ins))
     (map (\<lambda>i. outputIndex (utxoId i)) ins)"
proof (induction ins arbitrary: parts)
  case Nil
  show ?case by (simp add: outcome_sound_def)
next
  case (Cons a ins)
  show ?case
  proof (cases "writeInput a parts")
    case (Inl e)
    with writeInput_sound [of a parts] show ?thesis
      by (auto simp: outcome_sound_def)
  next
    case (Inr ps)
    with writeInput_sound [of a parts] Cons.IH [of ps] show ?thesis
      by (auto simp: outcome_sound_def split: sum.splits)
  qed
qed

lemma writeOutputs_sound:
  "outcome_sound (writeOutputs outs parts) (map recipient outs) (map amount outs)"
proof (induction outs arbitrary: parts)
  case Nil
  show ?case by (simp add: outcome_sound_def)
next
  case (Cons a outs)
  show ?case
  proof (cases "writeOutput a parts")
    case (Inl e)
    with writeOutput_sound [of a parts] show ?thesis
      by (auto simp: outcome_sound_def)
  next
    case (Inr ps)
    with writeOutput_sound [of a parts] Cons.IH [of ps] show ?thesis
      by (auto simp: outcome_sound_def split: sum.splits)
  qed
qed

text \<open>Every outcome of the encoder names a limit that the transaction breaks, or none.\<close>

lemma encodeTransaction_sound:
  "case encodeTransaction tx of
     Inr _ \<Rightarrow> list_all string_ok (strings_of tx) \<and> list_all u64_range (numbers_of tx) \<and>
              length (inputs tx) \<le> 255 \<and> length (outputs tx) \<le> 255
   | Inl StringTooLong \<Rightarrow> \<not> list_all string_ok (strings_of tx)
   | Inl RangeError \<Rightarrow> \<not> list_all u64_range (numbers_of tx)
   | Inl InputsTooLong \<Rightarrow> 255 < length (inputs tx)
   | Inl OutputsTooLong \<Rightarrow> 255 < length (outputs tx)"
proof -
  note s1 = writeString_cases [of "id_tx tx"]
  note s2 = writeNumber_cases [of "timestamp tx"]
  show ?thesis
  proof (cases "writeString (id_tx tx)")
    case (Inl e)
    with s1 show ?thesis by (auto simp: encodeTransaction_def strings_of_def)
  next
    case b1: (Inr b1)
    show ?thesis
    proof (cases "writeNumber (timestamp tx)")
      case (Inl e)
      with s2 b1 show ?thesis by (auto simp: encodeTransaction_def numbers_of_def)
    next
      case b2: (Inr b2)
      show ?thesis
      proof (cases "255 < length (inputs tx)")
        case True
        with b1 b2 show ?thesis by (simp add: encodeTransaction_def)
      next
        case len_in: False
        let ?p = "[b1, b2, [of_nat (length (inputs tx))]]"
        note s3 = writeInputs_sound [of "inputs tx" ?p]
        show ?thesis
        proof (cases "writeInputs (inputs tx) ?p")
          case (Inl e)
          with s3 b1 b2 len_in show ?thesis
            by (auto simp: encodeTransaction_def outcome_sound_def strings_of_def numbers_of_def)
        next
          case ps: (Inr ps)
          show ?thesis
          proof (cases "255 < length (outputs tx)")
            case True
            with b1 b2 len_in ps show ?thesis by (simp add: encodeTransaction_def)
          next
            case len_out: False
            let ?q = "ps @ [[of_nat (length (outputs tx))]]"
            note s4 = writeOutputs_sound [of "outputs tx" ?q]
            show ?thesis
            proof (cases "writeOutputs (outputs tx) ?q")
              case (Inl e)
              with s4 b1 b2 len_in ps len_out show ?thesis
                by (auto simp: encodeTransaction_def outcome_sound_def strings_of_def
                    numbers_of_def)
            next
              case (Inr qs)
              with s1 s2 s3 s4 b1 b2 len_in ps len_out show ?thesis
                by (auto simp: encodeTransaction_def outcome_sound_def strings_of_def
                    numbers_of_def)
            qed
          qed
        qed
      qed
    qed
  qed
qed


lemma u64_number_range: "u64_number x \<Longrightarrow> u64_range x"
  by (simp add: u64_number_def u64_range_def)

lemma numbers_within_range: "numbers_within tx \<Longrightarrow> list_all u64_range (numbers_of tx)"
  by (auto simp: numbers_within_def list_all_iff u64_number_range)

lemma within_limits_iff:
  "within_limits tx \<longleftrightarrow> strings_within tx \<and> numbers_within tx \<and>
     length (inputs tx) \<le> 255 \<and> length (outputs tx) \<le> 255"
  by (auto simp: within_limits_def strings_within_def numbers_within_def strings_of_def
      numbers_of_def list_all_iff input_ok_def output_ok_def input_strings_def)

text \<open>
  Claim C7. Encoding succeeds on a transaction with exactly 255 inputs, with exactly 255
  outputs, or with a string field of exactly 255 UTF-8 bytes, and fails with
  \<open>'Inputs too long'\<close>, \<open>'Outputs too long'\<close>, \<open>'String too long'\<close> on one with 256
  inputs, 256 outputs, a string field of 256 bytes, everything else being within the limits.
\<close>

theorem length_boundaries:
  "(strings_within ta \<and> numbers_within ta \<and> length (inputs ta) = 255 \<and>
      length (outputs ta) \<le> 255 \<longrightarrow> (\<exists>buffer. encodeTransaction ta = Inr buffer)) \<and>
   (strings_within tb \<and> numbers_within tb \<and> length (inputs tb) = 256 \<and>
      length (outputs tb) \<le> 255 \<longrightarrow> encodeTransaction tb = Inl InputsTooLong) \<and>
   (strings_within tc \<and> numbers_within tc \<and> length (inputs tc) \<le> 255 \<and>
      length (outputs tc) = 255 \<longrightarrow> (\<exists>buffer. encodeTransaction tc = Inr buffer)) \<and>
   (strings_within td \<and> numbers_within td \<and> length (inputs td) \<le> 255 \<and>
      length (outputs td) = 256 \<longrightarrow> encodeTransaction td = Inl OutputsTooLong) \<and>
   ((\<forall>s \<in> set (strings_of te). length (Buffer_from_utf8 s) \<le> 255) \<and>
    (\<exists>s \<in> set (strings_of te). length (Buffer_from_utf8 s) = 255) \<and> numbers_within te \<and>
      length (inputs te) \<le> 255 \<and> length (outputs te) \<le> 255 \<longrightarrow>
        (\<exists>buffer. encodeTransaction te = Inr buffer)) \<and>
   ((\<exists>s \<in> set (strings_of tf). length (Buffer_from_utf8 s) = 256) \<and> numbers_within tf \<and>
      length (inputs tf) \<le> 255 \<and> length (outputs tf) \<le> 255 \<longrightarrow>
        encodeTransaction tf = Inl StringTooLong)"
proof (intro conjI impI)
  assume "strings_within ta \<and> numbers_within ta \<and> length (inputs ta) = 255 \<and>
      length (outputs ta) \<le> 255"
  then have "within_limits ta" by (simp add: within_limits_iff)
  then show "\<exists>buffer. encodeTransaction ta = Inr buffer"
    by (simp add: encodeTransaction_ok)
next
  assume a: "strings_within tb \<and> numbers_within tb \<and> length (inputs tb) = 256 \<and>
      length (outputs tb) \<le> 255"
  then have "list_all u64_range (numbers_of tb)" by (simp add: numbers_within_range)
  with a encodeTransaction_sound [of tb] show "encodeTransaction tb = Inl InputsTooLong"
    by (auto simp: strings_within_def split: sum.splits error.splits)
next
  assume "strings_within tc \<and> numbers_within tc \<and> length (inputs tc) \<le> 255 \<and>
      length (outputs tc) = 255"
  then have "within_limits tc" by (simp add: within_limits_iff)
  then show "\<exists>buffer. encodeTransaction tc = Inr buffer"
    by (simp add: encodeTransaction_ok)
next
  assume a: "strings_within td \<and> numbers_within td \<and> length (inputs td) \<le> 255 \<and>
      length (outputs td) = 256"
  then have "list_all u64_range (numbers_of td)" by (simp add: numbers_within_range)
  with a encodeTransaction_sound [of td] show "encodeTransaction td = Inl OutputsTooLong"
    by (auto simp: strings_within_def split: sum.splits error.splits)
next
  assume "(\<forall>s \<in> set (strings_of te). length (Buffer_from_utf8 s) \<le> 255) \<and>
    (\<exists>s \<in> set (strings_of te). length (Buffer_from_utf8 s) = 255) \<and> numbers_within te \<and>
      length (inputs te) \<le> 255 \<and> length (outputs te) \<le> 255"
  then have "within_limits te"
    by (simp add: within_limits_iff strings_within_def list_all_iff string_ok_def)
  then show "\<exists>buffer. encodeTransaction te = Inr buffer"
    by (simp add: encodeTransaction_ok)
next
  assume a: "(\<exists>s \<in> set (strings_of tf). length (Buffer_from_utf8 s) = 256) \<and> numbers_within tf \<and>
      length (inputs tf) \<le> 255 \<and> length (outputs tf) \<le> 255"
  then have "list_all u64_range (numbers_of tf)" by (simp add: numbers_within_range)
  moreover from a obtain s where "s \<in> set (strings_of tf)" "\<not> string_ok s"
    by (auto simp: string_ok_def)
  then have "\<not> list_all string_ok (strings_of tf)"
    by (auto simp: list_all_iff)
  ultimately show "encodeTransaction tf = Inl StringTooLong"
    using a encodeTransaction_sound [of tf]
    by (auto split: sum.splits error.splits)
qed

lemma sample_strings_within: "strings_within sample_tx"
  using sample_tx_within_limits by (simp add: within_limits_iff)

lemma sample_numbers_within: "numbers_within sample_tx"
  using sample_tx_within_limits by (simp add: within_limits_iff)

lemma sample_input_ok: "input_ok sample_input"
  using sample_tx_within_limits by (simp add: within_limits_def sample_tx_def)

lemma sample_output_ok: "output_ok \<lparr>amount = 100, recipient = ''bob''\<rparr>"
  using sample_tx_within_limits by (simp add: within_limits_def sample_tx_def)

lemma many_inputs_within:
  "strings_within (sample_tx\<lparr>inputs := replicate n sample_input\<rparr>) \<and>
   numbers_within (sample_tx\<lparr>inputs := replicate n sample_input\<rparr>)"
  using sample_strings_within sample_numbers_within
  by (auto simp: strings_within_def numbers_within_def strings_of_def numbers_of_def
      list_all_iff sample_tx_def)

lemma many_outputs_within:
  "strings_within (sample_tx\<lparr>outputs := replicate n \<lparr>amount = 100, recipient = ''bob''\<rparr>\<rparr>) \<and>
   numbers_within (sample_tx\<lparr>outputs := replicate n \<lparr>amount = 100, recipient = ''bob''\<rparr>\<rparr>)"
  using sample_strings_within sample_numbers_within
  by (auto simp: strings_within_def numbers_within_def strings_of_def numbers_of_def
      list_all_iff sample_tx_def)

theorem length_boundaries_witness:
  "(\<exists>buffer. encodeTransaction (sample_tx\<lparr>inputs := replicate 255 sample_input\<rparr>) = Inr buffer) \<and>
   encodeTransaction (sample_tx\<lparr>inputs := replicate 256 sample_input\<rparr>) = Inl InputsTooLong \<and>
   (\<exists>buffer. encodeTransaction
      (sample_tx\<lparr>outputs := replicate 255 \<lparr>amount = 100, recipient = ''bob''\<rparr>\<rparr>) = Inr buffer) \<and>
   encodeTransaction (sample_tx\<lparr>outputs := replicate 256 \<lparr>amount = 100, recipient = ''bob''\<rparr>\<rparr>)
     = Inl OutputsTooLong \<and>
   (\<exists>buffer. encodeTransaction (sample_tx\<lparr>id_tx := long_string 255\<rparr>) = Inr buffer) \<and>
   encodeTransaction (sample_tx\<lparr>id_tx := long_string 256\<rparr>) = Inl StringTooLong"
proof -
  have e: "\<forall>s \<in> set (strings_of (sample_tx\<lparr>id_tx := long_string 255\<rparr>)).
      length (Buffer_from_utf8 s) \<le> 255"
    using sample_strings_within
    by (auto simp: strings_within_def strings_of_def list_all_iff string_ok_def long_string_def)
  have e': "\<exists>s \<in> set (strings_of (sample_tx\<lparr>id_tx := long_string 255\<rparr>)).
      length (Buffer_from_utf8 s) = 255"
    by (simp add: strings_of_def long_string_def)
  have f: "\<exists>s \<in> set (strings_of (sample_tx\<lparr>id_tx := long_string 256\<rparr>)).
      length (Buffer_from_utf8 s) = 256"
    by (simp add: strings_of_def long_string_def)
  have n: "numbers_within (sample_tx\<lparr>id_tx := s\<rparr>)" for s
    using sample_numbers_within by (simp add: numbers_within_def numbers_of_def)
  have l: "length (inputs sample_tx) \<le> 255" "length (outputs sample_tx) \<le> 255"
    by (simp_all add: sample_tx_def)
  show ?thesis
    using length_boundaries [of "sample_tx\<lparr>inputs := replicate 255 sample_input\<rparr>"
        "sample_tx\<lparr>inputs := replicate 256 sample_input\<rparr>"
        "sample_tx\<lparr>outputs := replicate 255 \<lparr>amount = 100, recipient = ''bob''\<rparr>\<rparr>"
        "sample_tx\<lparr>outputs := replicate 256 \<lparr>amount = 100, recipient = ''bob''\<rparr>\<rparr>"
        "sample_tx\<lparr>id_tx := long_string 255\<rparr>" "sample_tx\<lparr>id_tx := long_string 256\<rparr>"]
      many_inputs_within [of 255] many_inputs_within [of 256]
      many_outputs_within [of 255] many_outputs_within [of 256] e e' f n l
    by simp
qed

text \<open>
  Claim C3, amended. For every number \<open>n\<close> that is negative or not an integer,
  \<open>writeNumber n\<close> fails with the \<open>RangeError\<close> of the runtime (the InvalidNumber of
  the specification) and gives no bytes. Encoding a transaction that contains such a number
  as timestamp, output index or amount always fails; the failure is that \<open>RangeError\<close>
  when every string and both lists are within the limits, and may be the length error of a
  field otherwise.
\<close>

theorem writeNumber_rejects:
  assumes "n < 0 \<or> of_int \<lfloor>n\<rfloor> \<noteq> n"
  shows "writeNumber n = Inl RangeError \<and>
    (n \<in> set (numbers_of tx) \<longrightarrow> (\<exists>e. encodeTransaction tx = Inl e)) \<and>
    (n \<in> set (numbers_of tx) \<and> strings_within tx \<and> length (inputs tx) \<le> 255 \<and>
       length (outputs tx) \<le> 255 \<longrightarrow> encodeTransaction tx = Inl RangeError)"
proof -
  from assms have bad: "\<not> u64_range n" by (auto simp: u64_range_def)
  then have w: "writeNumber n = Inl RangeError"
    using writeNumber_cases [of n] by simp
  have "\<not> list_all u64_range (numbers_of tx)" if "n \<in> set (numbers_of tx)"
    using that bad by (auto simp: list_all_iff)
  then show ?thesis
    using w encodeTransaction_sound [of tx]
    by (auto simp: strings_within_def split: sum.splits error.splits)
qed

theorem writeNumber_rejects_witness:
  "((-1 :: number) < 0 \<or> of_int \<lfloor>-1 :: number\<rfloor> \<noteq> (-1 :: number)) \<and>
   writeNumber (-1) = Inl RangeError \<and>
   encodeTransaction (sample_tx\<lparr>timestamp := -1\<rparr>) = Inl RangeError \<and>
   ((3 / 2 :: number) < 0 \<or> of_int \<lfloor>3 / 2 :: number\<rfloor> \<noteq> (3 / 2 :: number)) \<and>
   writeNumber (3 / 2) = Inl RangeError"
proof -
  have "strings_within (sample_tx\<lparr>timestamp := -1\<rparr>)"
    using sample_strings_within by (simp add: strings_within_def strings_of_def)
  moreover have "-1 \<in> set (numbers_of (sample_tx\<lparr>timestamp := -1\<rparr>))"
    by (simp add: numbers_of_def)
  moreover have "length (inputs sample_tx) \<le> 255" "length (outputs sample_tx) \<le> 255"
    by (simp_all add: sample_tx_def)
  moreover have "\<lfloor>3 / 2 :: number\<rfloor> = 1"
    by (simp add: floor_eq_iff)
  then have f: "(3 / 2 :: number) < 0 \<or> of_int \<lfloor>3 / 2 :: number\<rfloor> \<noteq> (3 / 2 :: number)"
    by simp
  ultimately show ?thesis
    using writeNumber_rejects [of "-1" "sample_tx\<lparr>timestamp := -1\<rparr>"]
      writeNumber_rejects [OF f, of sample_tx]
    by simp
qed

text \<open>
  Without the amendment, every such encoding would fail with the number error. A transaction
  with a negative timestamp and an identifier of 256 bytes fails with
  \<open>'String too long'\<close>: the identifier is written first.
\<close>

theorem encode_first_error_counterexample:
  "timestamp (sample_tx\<lparr>id_tx := long_string 256, timestamp := -1\<rparr>) < 0 \<and>
   encodeTransaction (sample_tx\<lparr>id_tx := long_string 256, timestamp := -1\<rparr>) = Inl StringTooLong \<and>
   encodeTransaction (sample_tx\<lparr>id_tx := long_string 256, timestamp := -1\<rparr>) \<noteq> Inl RangeError"
  by (simp add: encodeTransaction_def writeString_def long_string_def)


section \<open>The codec: truncated buffers\<close>

subsection \<open>Readers fail with RangeError only\<close>

lemma readUInt8_Inl: "readUInt8 buf off = Inl e \<Longrightarrow> e = RangeError"
  by (simp add: readUInt8_def split: if_splits)

lemma readString_Inl: "readString buf off = Inl e \<Longrightarrow> e = RangeError"
  by (cases "readUInt8 buf off") (auto simp: readString_def Let_def dest: readUInt8_Inl)

lemma readNumber_Inl: "readNumber buf off = Inl e \<Longrightarrow> e = RangeError"
  by (simp add: readNumber_def readBigUInt64BE_def split: if_splits)

lemma bindE_Inl: "bindE m f = Inl e \<longleftrightarrow> m = Inl e \<or> (\<exists>x. m = Inr x \<and> f x = Inl e)"
  by (cases m) simp_all

lemma readInput_Inl: "readInput buf off = Inl e \<Longrightarrow> e = RangeError"
  by (auto simp: readInput_def bindE_Inl dest: readString_Inl readNumber_Inl)

lemma readOutput_Inl: "readOutput buf off = Inl e \<Longrightarrow> e = RangeError"
  by (auto simp: readOutput_def bindE_Inl dest: readString_Inl readNumber_Inl)

lemma readInputs_Inl: "readInputs buf off n = Inl e \<Longrightarrow> e = RangeError"
  by (induction n arbitrary: off) (auto simp: bindE_Inl dest: readInput_Inl)

lemma readOutputs_Inl: "readOutputs buf off n = Inl e \<Longrightarrow> e = RangeError"
  by (induction n arbitrary: off) (auto simp: bindE_Inl dest: readOutput_Inl)

lemma decodeTransaction_Inl: "decodeTransaction buf = Inl e \<Longrightarrow> e = RangeError"
  by (auto simp: decodeTransaction_def bindE_Inl
      dest: readString_Inl readNumber_Inl readUInt8_Inl readInputs_Inl readOutputs_Inl)

subsection \<open>A reader that succeeds on a buffer ends at the same offset on a longer one\<close>

lemma readUInt8_append: "readUInt8 buf off = Inr n \<Longrightarrow> readUInt8 (buf @ ext) off = Inr n"
  by (auto simp: readUInt8_def nth_append split: if_splits)

lemma readUInt8_less: "readUInt8 buf off = Inr n \<Longrightarrow> off < length buf"
  by (simp add: readUInt8_def split: if_splits)

lemma readString_Inr_iff:
  "readString buf off = Inr (s, off') \<longleftrightarrow>
     (\<exists>len. readUInt8 buf off = Inr len \<and> off' = off + 1 + len \<and>
        s = toString_utf8 (subarray buf (off + 1) (off + 1 + len)))"
  by (cases "readUInt8 buf off") (auto simp: readString_def Let_def)

lemma readNumber_Inr_iff:
  "readNumber buf off = Inr (x, off') \<longleftrightarrow>
     off + 8 \<le> length buf \<and> off' = off + 8 \<and>
     x = Number_of_BigInt (be_value (take 8 (drop off buf)))"
  by (auto simp: readNumber_def readBigUInt64BE_def)

lemma readString_append:
  "readString buf off = Inr (s, off') \<Longrightarrow> \<exists>s'. readString (buf @ ext) off = Inr (s', off')"
  by (auto simp: readString_Inr_iff dest: readUInt8_append)

lemma readNumber_append:
  "readNumber buf off = Inr (x, off') \<Longrightarrow> \<exists>x'. readNumber (buf @ ext) off = Inr (x', off')"
  by (auto simp: readNumber_Inr_iff)

lemma readInput_append:
  assumes "readInput buf off = Inr (i, off')"
  shows "\<exists>i'. readInput (buf @ ext) off = Inr (i', off')"
proof -
  from assms obtain s1 o1 x o2 s2 o3 s3 where r:
    "readString buf off = Inr (s1, o1)" "readNumber buf o1 = Inr (x, o2)"
    "readString buf o2 = Inr (s2, o3)" "readString buf o3 = Inr (s3, off')"
    by (auto simp: readInput_def bindE_eq_Inr)
  from readString_append [OF r(1), of ext] readNumber_append [OF r(2), of ext]
    readString_append [OF r(3), of ext] readString_append [OF r(4), of ext]
  show ?thesis by (auto simp: readInput_def)
qed

lemma readOutput_append:
  assumes "readOutput buf off = Inr (out, off')"
  shows "\<exists>out'. readOutput (buf @ ext) off = Inr (out', off')"
proof -
  from assms obtain x o1 s where r:
    "readNumber buf off = Inr (x, o1)" "readString buf o1 = Inr (s, off')"
    by (auto simp: readOutput_def bindE_eq_Inr)
  from readNumber_append [OF r(1), of ext] readString_append [OF r(2), of ext]
  show ?thesis by (auto simp: readOutput_def)
qed

lemma readInputs_append:
  "readInputs buf off n = Inr (ins, off') \<Longrightarrow>
     \<exists>ins'. readInputs (buf @ ext) off n = Inr (ins', off')"
proof (induction n arbitrary: off ins)
  case 0
  then show ?case by simp
next
  case (Suc n)
  from Suc.prems obtain i o1 rest where r:
    "readInput buf off = Inr (i, o1)" "readInputs buf o1 n = Inr (rest, off')"
    by (auto simp: bindE_eq_Inr)
  from readInput_append [OF r(1), of ext] Suc.IH [OF r(2)]
  show ?case by auto
qed

lemma readOutputs_append:
  "readOutputs buf off n = Inr (outs, off') \<Longrightarrow>
     \<exists>outs'. readOutputs (buf @ ext) off n = Inr (outs', off')"
proof (induction n arbitrary: off outs)
  case 0
  then show ?case by simp
next
  case (Suc n)
  from Suc.prems obtain i o1 rest where r:
    "readOutput buf off = Inr (i, o1)" "readOutputs buf o1 n = Inr (rest, off')"
    by (auto simp: bindE_eq_Inr)
  from readOutput_append [OF r(1), of ext] Suc.IH [OF r(2)]
  show ?case by auto
qed

subsection \<open>The last iteration of the loop over the outputs\<close>

lemma readOutputs_Suc_last:
  "readOutputs buf off (Suc n) =
     bindE (readOutputs buf off n) (\<lambda>(xs, off').
     bindE (readOutput buf off') (\<lambda>(y, final). Inr (xs @ [y], final)))"
proof (induction n arbitrary: off)
  case 0
  show ?case by (cases "readOutput buf off") auto
next
  case (Suc n)
  show ?case
  proof (cases "readOutput buf off")
    case (Inl e)
    then show ?thesis by simp
  next
    case (Inr p)
    obtain y o1 where p: "p = (y, o1)" by (cases p)
    have "readOutputs buf off (Suc (Suc n)) =
        bindE (readOutputs buf o1 (Suc n)) (\<lambda>(rest, final). Inr (y # rest, final))"
      using Inr p by simp
    also have "\<dots> = bindE (readOutputs buf o1 n) (\<lambda>(xs, off').
        bindE (readOutput buf off') (\<lambda>(z, final). Inr (y # xs @ [z], final)))"
      unfolding Suc.IH [of o1]
      by (cases "readOutputs buf o1 n") (auto simp: bindE_def split: sum.splits)
    also have "\<dots> = bindE (readOutputs buf off (Suc n)) (\<lambda>(xs, off').
        bindE (readOutput buf off') (\<lambda>(z, final). Inr (xs @ [z], final)))"
      using Inr p by (cases "readOutputs buf o1 n") auto
    finally show ?thesis .
  qed
qed


subsection \<open>Reading the header\<close>

lemma header_trace:
  assumes "within_limits tx" "buf = header_bytes tx @ rest"
  shows "readString buf 0 = Inr (id_tx tx, length (string_bytes (id_tx tx)))"
    and "readNumber buf (length (string_bytes (id_tx tx))) =
           Inr (timestamp tx, length (string_bytes (id_tx tx)) + 8)"
    and "readUInt8 buf (length (string_bytes (id_tx tx)) + 8) = Inr (length (inputs tx))"
    and "readInputs buf (length (string_bytes (id_tx tx)) + 8 + 1) (length (inputs tx)) =
           Inr (inputs tx, length (header_bytes tx))"
proof -
  let ?s = "string_bytes (id_tx tx)" and ?n = "number_bytes (timestamp tx)"
  let ?ci = "of_nat (length (inputs tx)) :: 8 word"
  let ?is = "concat (map input_bytes (inputs tx))"
  from assms(1) have ok: "string_ok (id_tx tx)" "u64_number (timestamp tx)"
      "length (inputs tx) \<le> 255" "list_all input_ok (inputs tx)"
    by (simp_all add: within_limits_def)
  have d0: "drop 0 buf = ?s @ (?n @ ?ci # ?is @ rest)"
    by (simp add: assms(2) header_bytes_def)
  have d1: "drop (0 + length ?s) buf = ?n @ (?ci # ?is @ rest)"
    using drop_after [OF d0] .
  have d2: "drop (0 + length ?s + length ?n) buf = [?ci] @ (?is @ rest)"
    using drop_after [OF d1] by simp
  have d3: "drop (0 + length ?s + length ?n + 1) buf = ?is @ rest"
    using drop_after [OF d2] by simp
  show "readString buf 0 = Inr (id_tx tx, length ?s)"
    using readString_bytes [OF ok(1) d0] by simp
  show "readNumber buf (length ?s) = Inr (timestamp tx, length ?s + 8)"
    using readNumber_bytes [OF ok(2) d1] by simp
  show "readUInt8 buf (length ?s + 8) = Inr (length (inputs tx))"
    using readUInt8_drop [of "0 + length ?s + length ?n" buf ?ci] d2 ok(3)
    by (simp add: unat_length_byte)
  show "readInputs buf (length ?s + 8 + 1) (length (inputs tx)) =
      Inr (inputs tx, length (header_bytes tx))"
    using readInputs_bytes [OF ok(4) d3] by (simp add: header_bytes_def)
qed

lemma decode_after_header:
  assumes "within_limits tx"
  shows "decodeTransaction (header_bytes tx @ rest) =
     bindE (readUInt8 (header_bytes tx @ rest) (length (header_bytes tx))) (\<lambda>outputsAmount.
     bindE (readOutputs (header_bytes tx @ rest) (length (header_bytes tx) + 1) outputsAmount)
       (\<lambda>(outputs', offset').
          Inr \<lparr>id_tx = id_tx tx, timestamp = timestamp tx, inputs = inputs tx,
               outputs = outputs'\<rparr>))"
  unfolding decodeTransaction_def
  by (simp only: header_trace [OF assms refl] bindE_simps prod.case)

lemma transaction_bytes_header:
  "transaction_bytes tx = header_bytes tx @ of_nat (length (outputs tx)) #
     concat (map output_bytes (outputs tx))"
  by (simp add: transaction_bytes_def header_bytes_def)

lemma length_string_bytes: "length (string_bytes s) = Suc (length s)"
  by (simp add: string_bytes_def)

subsection \<open>Decoding a buffer that lost its last three bytes\<close>

lemma truncated_decode_fails:
  assumes lim: "within_limits tx"
    and short: "outputs tx = [] \<or> length (Buffer_from_utf8 (recipient (last (outputs tx)))) < 3"
  shows "decodeTransaction (truncate3 (transaction_bytes tx)) = Inl RangeError"
proof -
  let ?b = "transaction_bytes tx"
  let ?b' = "truncate3 ?b"
  let ?H = "header_bytes tx"
  let ?s = "string_bytes (id_tx tx)"
  obtain ext where ext: "?b = ?b' @ ext"
    unfolding truncate3_def by (metis append_take_drop_id)
  have bH: "?b = ?H @ of_nat (length (outputs tx)) # concat (map output_bytes (outputs tx))"
    by (rule transaction_bytes_header)
  note tr = header_trace [OF lim bH]
  have "decodeTransaction ?b' \<noteq> Inr t" for t
  proof
    assume "decodeTransaction ?b' = Inr t"
    then obtain i' o1 t' o2 n ins o4 m outs o6 where r:
      "readString ?b' 0 = Inr (i', o1)" "readNumber ?b' o1 = Inr (t', o2)"
      "readUInt8 ?b' o2 = Inr n" "readInputs ?b' (o2 + 1) n = Inr (ins, o4)"
      "readUInt8 ?b' o4 = Inr m" "readOutputs ?b' (o4 + 1) m = Inr (outs, o6)"
      by (auto simp: decodeTransaction_def bindE_eq_Inr)
    from readString_append [OF r(1), of ext] tr(1) have o1: "o1 = length ?s"
      by (auto simp: ext [symmetric])
    from readNumber_append [OF r(2), of ext] tr(2) have o2: "o2 = length ?s + 8"
      by (auto simp: ext [symmetric] o1)
    from readUInt8_append [OF r(3), of ext] tr(3) have n: "n = length (inputs tx)"
      by (auto simp: ext [symmetric] o2)
    from readInputs_append [OF r(4), of ext] tr(4) have o4: "o4 = length ?H"
      by (auto simp: ext [symmetric] o2 n)
    have d5: "drop (length ?H) ?b = of_nat (length (outputs tx)) #
        concat (map output_bytes (outputs tx))"
      by (simp add: bH)
    from lim have "length (outputs tx) \<le> 255" by (simp add: within_limits_def)
    with readUInt8_drop [OF d5] have "readUInt8 ?b (length ?H) = Inr (length (outputs tx))"
      by (simp add: unat_length_byte)
    with readUInt8_append [OF r(5), of ext] have m: "m = length (outputs tx)"
      by (simp add: ext [symmetric] o4)
    from readUInt8_less [OF r(5)] have less: "length ?H < length ?b'"
      by (simp add: o4)
    show False
    proof (cases "outputs tx = []")
      case True
      then have "length ?b = length ?H + 1" by (simp add: bH)
      with less show False by (simp add: truncate3_def)
    next
      case False
      then obtain os out where os: "outputs tx = os @ [out]"
        by (metis append_butlast_last_id)
      with short have L: "length (Buffer_from_utf8 (recipient out)) < 3" by simp
      from lim os have oks: "list_all output_ok os" by (simp add: within_limits_def)
      let ?osb = "concat (map output_bytes os)"
      have d6: "drop (length ?H + 1) ?b = ?osb @ output_bytes out"
        by (simp add: bH os)
      note full = readOutputs_bytes [OF oks d6]
      from r(6) have "readOutputs ?b' (length ?H + 1) (Suc (length os)) = Inr (outs, o6)"
        by (simp add: o4 m os)
      then obtain xs o5 y where r7: "readOutputs ?b' (length ?H + 1) (length os) = Inr (xs, o5)"
          "readOutput ?b' o5 = Inr (y, o6)"
        unfolding readOutputs_Suc_last by (auto simp: bindE_eq_Inr)
      from readOutputs_append [OF r7(1), of ext] full have o5: "o5 = length ?H + 1 + length ?osb"
        by (auto simp: ext [symmetric])
      from r7(2) obtain a s o7 where "readNumber ?b' o5 = Inr (a, o7)"
          "readString ?b' o7 = Inr (s, o6)"
        by (auto simp: readOutput_def bindE_eq_Inr)
      then have "readUInt8 ?b' (o5 + 8) = Inr (o6 - (o5 + 8 + 1))"
        by (auto simp: readNumber_Inr_iff readString_Inr_iff)
      from readUInt8_less [OF this] have "o5 + 8 < length ?b'" .
      moreover have "length ?b = o5 + 8 + 1 + length (Buffer_from_utf8 (recipient out))"
        by (simp add: bH os o5 output_bytes_def string_bytes_def)
      ultimately show False using L by (simp add: truncate3_def)
    qed
  qed
  then show ?thesis
    by (cases "decodeTransaction ?b'") (auto dest: decodeTransaction_Inl)
qed


lemma readString_generic:
  "drop off buf = l # rest \<Longrightarrow>
     readString buf off = Inr (toString_utf8 (take (unat l) rest), off + 1 + unat l)"
proof -
  assume d: "drop off buf = l # rest"
  have "drop (off + 1) buf = rest"
    using drop_after [of off buf "[l]" rest] d by simp
  then show ?thesis
    using readUInt8_drop [OF d] by (simp add: readString_def subarray_def Let_def)
qed

lemma truncate3_append:
  "3 \<le> length ys \<Longrightarrow> truncate3 (xs @ ys) = xs @ take (length ys - 3) ys"
  by (simp add: truncate3_def)

lemma truncated_decode_succeeds:
  assumes lim: "within_limits tx"
    and os: "outputs tx = os @ [out]"
    and long: "3 \<le> length (Buffer_from_utf8 (recipient out))"
  shows "decodeTransaction (truncate3 (transaction_bytes tx)) =
     Inr (tx\<lparr>outputs := os @ [out\<lparr>recipient :=
            toString_utf8 (take (length (Buffer_from_utf8 (recipient out)) - 3)
              (Buffer_from_utf8 (recipient out)))\<rparr>]\<rparr>)"
proof -
  define co :: "8 word" where "co = of_nat (length (outputs tx))"
  let ?H = "header_bytes tx"
  let ?osb = "concat (map output_bytes os)"
  let ?n = "number_bytes (amount out)"
  let ?data = "Buffer_from_utf8 (recipient out)"
  let ?L = "length ?data"
  let ?l = "of_nat ?L :: 8 word"
  let ?rest = "co # ?osb @ ?n @ ?l # take (?L - 3) ?data"
  let ?b' = "?H @ ?rest"
  from lim os have oks: "list_all output_ok os" and ok: "output_ok out"
      and len: "length (outputs tx) \<le> 255"
    by (simp_all add: within_limits_def)
  from ok have okn: "u64_number (amount out)" and L255: "?L \<le> 255"
    by (simp_all add: output_ok_def string_ok_def)
  from len have co: "unat co = Suc (length os)"
    by (simp add: co_def unat_length_byte) (simp add: os)
  have "transaction_bytes tx = (?H @ co # ?osb @ ?n @ [?l]) @ ?data"
    by (simp add: transaction_bytes_header co_def) (simp add: os output_bytes_def string_bytes_def)
  then have b': "truncate3 (transaction_bytes tx) = ?b'"
    by (simp only: truncate3_append [OF long]) simp
  have d5: "drop (length ?H) ?b' = co # (?osb @ ?n @ ?l # take (?L - 3) ?data)"
    by simp
  have r5: "readUInt8 ?b' (length ?H) = Inr (Suc (length os))"
    using readUInt8_drop [OF d5] by (simp add: co)
  have d6: "drop (length ?H + 1) ?b' = ?osb @ (?n @ ?l # take (?L - 3) ?data)"
    by simp
  have r6: "readOutputs ?b' (length ?H + 1) (length os) = Inr (os, length ?H + 1 + length ?osb)"
    using readOutputs_bytes [OF oks d6] .
  have d7: "drop (length ?H + 1 + length ?osb) ?b' = ?n @ (?l # take (?L - 3) ?data)"
    using drop_after [OF d6] .
  have r7: "readNumber ?b' (length ?H + 1 + length ?osb) =
      Inr (amount out, length ?H + 1 + length ?osb + length ?n)"
    using readNumber_bytes [OF okn d7] .
  have d8: "drop (length ?H + 1 + length ?osb + length ?n) ?b' = ?l # take (?L - 3) ?data"
    using drop_after [OF d7] .
  have r8: "readString ?b' (length ?H + 1 + length ?osb + length ?n) =
      Inr (toString_utf8 (take (?L - 3) ?data), length ?H + 1 + length ?osb + length ?n + 1 + ?L)"
  proof -
    have ul: "unat ?l = ?L"
      using L255 by (simp add: unat_length_byte)
    have tk: "take (unat ?l) (take (?L - 3) ?data) = take (?L - 3) ?data"
      unfolding ul by (simp add: min_absorb2)
    show ?thesis
      using readString_generic [OF d8, unfolded tk ul] by simp
  qed
  have r9: "readOutput ?b' (length ?H + 1 + length ?osb) =
      Inr (out\<lparr>recipient := toString_utf8 (take (?L - 3) ?data)\<rparr>,
           length ?H + 1 + length ?osb + length ?n + 1 + ?L)"
    unfolding readOutput_def
    by (simp only: r7 r8 bindE_simps prod.case) simp
  have r10: "readOutputs ?b' (length ?H + 1) (Suc (length os)) =
      Inr (os @ [out\<lparr>recipient := toString_utf8 (take (?L - 3) ?data)\<rparr>],
           length ?H + 1 + length ?osb + length ?n + 1 + ?L)"
    unfolding readOutputs_Suc_last
    by (simp only: r6 r9 bindE_simps prod.case)
  show ?thesis
    unfolding b' decode_after_header [OF lim]
    by (simp only: r5 r10 bindE_simps prod.case) simp
qed



text \<open>
  The encoding of the sample transaction, byte by byte, and what its first 49 bytes decode
  to.
\<close>

lemma be_bytes_8:
  "be_bytes 8 v = [of_nat (v div 256 ^ 7), of_nat (v div 256 ^ 6), of_nat (v div 256 ^ 5),
     of_nat (v div 256 ^ 4), of_nat (v div 256 ^ 3), of_nat (v div 256 ^ 2),
     of_nat (v div 256), of_nat v]"
proof -
  have "(8::nat) = Suc (Suc (Suc (Suc (Suc (Suc (Suc (Suc 0)))))))" by simp
  then show ?thesis
    by (simp only: be_bytes.simps) (simp add: div_mult2_eq [symmetric] word_of_nat_eq_iff take_bit_eq_mod)
qed

lemma sample_tx_bytes:
  "transaction_bytes sample_tx =
     [3, 116, 120, 49, 0, 0, 0, 0, 101, 83, 241, 0, 1, 7, 103, 101, 110, 101, 115, 105, 115,
      0, 0, 0, 0, 0, 0, 0, 0, 5, 97, 108, 105, 99, 101, 3, 115, 105, 103, 1,
      0, 0, 0, 0, 0, 0, 0, 100, 3, 98, 111, 98]"
  by (simp add: transaction_bytes_def sample_tx_def sample_input_def string_bytes_def
      number_bytes_def input_bytes_def output_bytes_def Buffer_from_utf8_def be_bytes_8)

lemma sample_truncated_decode:
  "decodeTransaction
     [3, 116, 120, 49, 0, 0, 0, 0, 101, 83, 241, 0, 1, 7, 103, 101, 110, 101, 115, 105, 115,
      0, 0, 0, 0, 0, 0, 0, 0, 5, 97, 108, 105, 99, 101, 3, 115, 105, 103, 1,
      0, 0, 0, 0, 0, 0, 0, 100, 3] =
   Inr \<lparr>id_tx = ''tx1'', timestamp = 1700000000,
        inputs = [\<lparr>utxoId = \<lparr>txId = ''genesis'', outputIndex = 0\<rparr>, owner = ''alice'',
                   signature = ''sig''\<rparr>],
        outputs = [\<lparr>amount = 100, recipient = []\<rparr>]\<rparr>"
  by (simp add: decodeTransaction_def readString_def readUInt8_def readNumber_def
      readBigUInt64BE_def subarray_def toString_utf8_def be_value_def Number_of_BigInt_def
      readInput_def readOutput_def char_of_def bit_Suc_0_iff)


section \<open>The validator\<close>

subsection \<open>The loop over the outputs\<close>

lemma validateBalance_loop_total:
  "snd (validateBalance_loop outs (errs, t)) = t + sum_list (map amount outs)"
  by (induction outs arbitrary: errs t) (simp_all add: add.assoc)

lemma validateBalance_loop_kinds:
  "\<exists>new. fst (validateBalance_loop outs (errs, t)) = errs @ new \<and>
     (\<forall>e \<in> set new. kind e = NEGATIVE_AMOUNT)"
proof (induction outs arbitrary: errs t)
  case Nil
  show ?case by simp
next
  case (Cons a outs)
  show ?case
  proof (cases "amount a \<le> 0")
    case True
    let ?e = "createValidationError NEGATIVE_AMOUNT
        [Lit ''Output amount can not be negative or zero: '', Num (amount a)]"
    from Cons.IH [of "errs @ [?e]" "t + amount a"] obtain new where
      "fst (validateBalance_loop outs (errs @ [?e], t + amount a)) = (errs @ [?e]) @ new"
      "\<forall>e \<in> set new. kind e = NEGATIVE_AMOUNT" by blast
    then have "fst (validateBalance_loop (a # outs) (errs, t)) = errs @ (?e # new) \<and>
        (\<forall>e \<in> set (?e # new). kind e = NEGATIVE_AMOUNT)"
      using True by (simp add: createValidationError_def)
    then show ?thesis by blast
  next
    case False
    with Cons.IH [of errs "t + amount a"] show ?thesis by simp
  qed
qed

lemma validateBalance_eq:
  "\<exists>new. (\<forall>e \<in> set new. kind e = NEGATIVE_AMOUNT) \<and>
     validateBalance inputsTotal tx =
       new @ (if inputsTotal \<noteq> outputs_sum tx
              then [createValidationError AMOUNT_MISMATCH
                 [Lit ''AMOUNTS MISMATCH: '', Num inputsTotal, Lit '' != '', Num (outputs_sum tx)]]
              else [])"
proof -
  obtain new where new: "fst (validateBalance_loop (outputs tx) ([], 0)) = [] @ new"
      "\<forall>e \<in> set new. kind e = NEGATIVE_AMOUNT"
    using validateBalance_loop_kinds [of "outputs tx" "[]" 0] by blast
  have "snd (validateBalance_loop (outputs tx) ([], 0)) = outputs_sum tx"
    by (simp add: validateBalance_loop_total outputs_sum_def)
  with new have "validateBalance_loop (outputs tx) ([], 0) = (new, outputs_sum tx)"
    by (cases "validateBalance_loop (outputs tx) ([], 0)") simp
  then show ?thesis
    using new(2) by (auto simp: validateBalance_def)
qed

subsection \<open>One input\<close>

lemma validateInput_None:
  "lookup this input = None \<Longrightarrow>
     validateInput this tx input (errs, t, seen) =
       (errs @ [createValidationError UTXO_NOT_FOUND
          [Lit ''Utxo not found: '', Lit (txId (utxoId input)), Lit '':'',
           Num (outputIndex (utxoId input))]], t, seen)"
  by (simp add: validateInput_def lookup_def)

lemma validateInput_Some:
  "lookup this input = Some utxo \<Longrightarrow>
     validateInput this tx input (errs, t, seen) =
       (errs @
        (if utxo_amount utxo \<le> 0
         then [createValidationError NEGATIVE_AMOUNT [Lit ''Utxo amount must be positive'']]
         else []) @
        (if verify this (createTransactionDataForSigning this tx) (signature input) (owner input)
         then []
         else [createValidationError INVALID_SIGNATURE [Lit ''invalid signature'']]) @
        (if getUTXOKey (utxoId input) \<in> seen
         then [createValidationError DOUBLE_SPENDING
            (Lit ''This UTXO is referenced multiple times within the same transaction: ''
             # getUTXOKey (utxoId input))]
         else []),
        t + utxo_amount utxo,
        insert (getUTXOKey (utxoId input)) seen)"
  by (auto simp: validateInput_def lookup_def validateInputSignature_def
      validateDoubleSpending_def Let_def insert_absorb)

subsection \<open>The loop over the inputs\<close>

lemma validateInput_cases:
  obtains new where "validateInput this tx input (errs, t, seen) =
      (errs @ new, t + (case lookup this input of None \<Rightarrow> 0 | Some u \<Rightarrow> utxo_amount u),
       (case lookup this input of None \<Rightarrow> seen
        | Some u \<Rightarrow> insert (getUTXOKey (utxoId input)) seen))"
proof (cases "lookup this input")
  case None
  from validateInput_None [OF None, of tx errs t seen] that None show ?thesis by simp
next
  case (Some u)
  from validateInput_Some [OF Some, of tx errs t seen] that Some show ?thesis by simp
qed

lemma validateInputs_total:
  "validateInputs this tx ins (errs, t, seen) = (errs', t', seen') \<Longrightarrow>
     t' = t + sum_list (map utxo_amount (List.map_filter (lookup this) ins))"
proof (induction ins arbitrary: errs t seen)
  case Nil
  then show ?case by (simp add: List.map_filter_simps)
next
  case (Cons a ins)
  obtain new where step: "validateInput this tx a (errs, t, seen) =
      (errs @ new, t + (case lookup this a of None \<Rightarrow> 0 | Some u \<Rightarrow> utxo_amount u),
       (case lookup this a of None \<Rightarrow> seen | Some u \<Rightarrow> insert (getUTXOKey (utxoId a)) seen))"
    by (rule validateInput_cases)
  from Cons.prems have "validateInputs this tx ins (validateInput this tx a (errs, t, seen)) =
      (errs', t', seen')" by simp
  from Cons.IH [OF this [unfolded step]] show ?case
    by (simp add: List.map_filter_simps add.assoc split: option.splits)
qed

lemma validateInputs_prefix:
  "validateInputs this tx ins (errs, t, seen) = (errs', t', seen') \<Longrightarrow>
     \<exists>new. errs' = errs @ new"
proof (induction ins arbitrary: errs t seen)
  case Nil
  then show ?case by simp
next
  case (Cons a ins)
  obtain new where step: "validateInput this tx a (errs, t, seen) =
      (errs @ new, t + (case lookup this a of None \<Rightarrow> 0 | Some u \<Rightarrow> utxo_amount u),
       (case lookup this a of None \<Rightarrow> seen | Some u \<Rightarrow> insert (getUTXOKey (utxoId a)) seen))"
    by (rule validateInput_cases)
  from Cons.prems have "validateInputs this tx ins (validateInput this tx a (errs, t, seen)) =
      (errs', t', seen')" by simp
  from Cons.IH [OF this [unfolded step]] show ?case by auto
qed

lemma validateInputs_not_found:
  assumes "validateInputs this tx ins (errs, t, seen) = (errs', t', seen')"
    and "input \<in> set ins" "lookup this input = None"
  shows "createValidationError UTXO_NOT_FOUND
          [Lit ''Utxo not found: '', Lit (txId (utxoId input)), Lit '':'',
           Num (outputIndex (utxoId input))] \<in> set errs'"
  using assms
proof (induction ins arbitrary: errs t seen)
  case Nil
  then show ?case by simp
next
  case (Cons a ins)
  obtain e1 t1 s1 where step: "validateInput this tx a (errs, t, seen) = (e1, t1, s1)"
    by (cases "validateInput this tx a (errs, t, seen)") auto
  with Cons.prems(1) have rest: "validateInputs this tx ins (e1, t1, s1) = (errs', t', seen')"
    by simp
  show ?case
  proof (cases "input = a")
    case True
    with step validateInput_None [OF Cons.prems(3), of tx errs t seen]
    have "createValidationError UTXO_NOT_FOUND
          [Lit ''Utxo not found: '', Lit (txId (utxoId input)), Lit '':'',
           Num (outputIndex (utxoId input))] \<in> set e1" by auto
    with validateInputs_prefix [OF rest] show ?thesis by auto
  next
    case False
    with Cons.prems(2) have "input \<in> set ins" by simp
    from Cons.IH [OF rest this Cons.prems(3)] show ?thesis .
  qed
qed

lemma validateInputs_negative:
  assumes "validateInputs this tx ins (errs, t, seen) = (errs', t', seen')"
    and "input \<in> set ins" "lookup this input = Some utxo" "utxo_amount utxo \<le> 0"
  shows "createValidationError NEGATIVE_AMOUNT [Lit ''Utxo amount must be positive'']
           \<in> set errs'"
  using assms
proof (induction ins arbitrary: errs t seen)
  case Nil
  then show ?case by simp
next
  case (Cons a ins)
  obtain e1 t1 s1 where step: "validateInput this tx a (errs, t, seen) = (e1, t1, s1)"
    by (cases "validateInput this tx a (errs, t, seen)") auto
  with Cons.prems(1) have rest: "validateInputs this tx ins (e1, t1, s1) = (errs', t', seen')"
    by simp
  show ?case
  proof (cases "input = a")
    case True
    with step validateInput_Some [OF Cons.prems(3), of tx errs t seen] Cons.prems(4)
    have "createValidationError NEGATIVE_AMOUNT [Lit ''Utxo amount must be positive'']
        \<in> set e1" by auto
    with validateInputs_prefix [OF rest] show ?thesis by auto
  next
    case False
    with Cons.prems(2) have "input \<in> set ins" by simp
    from Cons.IH [OF rest this Cons.prems(3) Cons.prems(4)] show ?thesis .
  qed
qed

lemma ds_count_append [simp]: "ds_count (xs @ ys) = ds_count xs + ds_count ys"
  by (simp add: ds_count_def)

lemma validateInputs_ds_count:
  "validateInputs this tx ins (errs, t, seen) = (errs', t', seen') \<Longrightarrow> finite seen \<Longrightarrow>
     finite seen' \<and>
     seen' = seen \<union> (\<lambda>i. getUTXOKey (utxoId i)) ` {i \<in> set ins. lookup this i \<noteq> None} \<and>
     ds_count errs' + card seen' =
       ds_count errs + card seen + length (List.map_filter (lookup this) ins)"
proof (induction ins arbitrary: errs t seen)
  case Nil
  then show ?case by (simp add: List.map_filter_simps)
next
  case (Cons a ins)
  obtain e1 t1 s1 where step: "validateInput this tx a (errs, t, seen) = (e1, t1, s1)"
    by (cases "validateInput this tx a (errs, t, seen)") auto
  with Cons.prems(1) have rest: "validateInputs this tx ins (e1, t1, s1) = (errs', t', seen')"
    by simp
  have one: "finite s1 \<and>
      s1 = seen \<union> (\<lambda>i. getUTXOKey (utxoId i)) ` {i \<in> {a}. lookup this i \<noteq> None} \<and>
      ds_count e1 + card s1 = ds_count errs + card seen + length (List.map_filter (lookup this) [a])"
  proof (cases "lookup this a")
    case None
    with step validateInput_None [OF None, of tx errs t seen] Cons.prems(2) show ?thesis
      by (auto simp: List.map_filter_simps ds_count_def createValidationError_def)
  next
    case (Some u)
    with step validateInput_Some [OF Some, of tx errs t seen] Cons.prems(2) show ?thesis
      by (auto simp: List.map_filter_simps ds_count_def createValidationError_def
          card_insert_if insert_absorb)
  qed
  then have fin: "finite s1" by (rule conjunct1)
  from Cons.IH [OF rest fin] one show ?case
    by (auto simp: List.map_filter_simps split: option.splits)
qed

subsection \<open>The whole validation\<close>

lemma validateTransaction_unfold:
  assumes "validateInputs this tx (inputs tx) (validateNonEmptyInputsAndOutputs tx, 0, {}) =
       (errs1, tot, seen)"
  shows "validateTransaction this tx =
     \<lparr>valid = (errs1 @ validateBalance tot tx = []), errors = errs1 @ validateBalance tot tx\<rparr>"
  unfolding validateTransaction_def Let_def append_Nil assms prod.case
  by simp

lemma validateTransaction_eq:
  obtains errs1 seen where
    "validateInputs this tx (inputs tx) (validateNonEmptyInputsAndOutputs tx, 0, {}) =
       (errs1, inputs_sum this tx, seen)"
    "errors (validateTransaction this tx) = errs1 @ validateBalance (inputs_sum this tx) tx"
proof -
  obtain errs1 tot seen where st:
    "validateInputs this tx (inputs tx) (validateNonEmptyInputsAndOutputs tx, 0, {}) =
       (errs1, tot, seen)"
    by (cases "validateInputs this tx (inputs tx) (validateNonEmptyInputsAndOutputs tx, 0, {})")
      auto
  from validateInputs_total [OF st] have "tot = inputs_sum this tx"
    by (simp add: inputs_sum_def)
  with st that validateTransaction_unfold [OF st] show ?thesis
    by simp
qed

lemma validateNonEmpty_kinds:
  "e \<in> set (validateNonEmptyInputsAndOutputs tx) \<Longrightarrow>
     kind e = EMPTY_INPUTS \<or> kind e = EMPTY_OUTPUTS"
  by (auto simp: validateNonEmptyInputsAndOutputs_def createValidationError_def Let_def
      split: if_splits)

lemma validateInput_kinds:
  assumes "validateInput this tx input (errs, t, seen) = (errs', t', seen')" "e \<in> set errs'"
  shows "e \<in> set errs \<or> kind e \<in> {UTXO_NOT_FOUND, NEGATIVE_AMOUNT, INVALID_SIGNATURE,
           DOUBLE_SPENDING}"
proof (cases "lookup this input")
  case None
  from validateInput_None [OF None, of tx errs t seen] assms show ?thesis
    by (auto simp: createValidationError_def)
next
  case (Some u)
  from validateInput_Some [OF Some, of tx errs t seen] assms show ?thesis
    by (auto simp: createValidationError_def split: if_splits)
qed

lemma validateInputs_kinds:
  "validateInputs this tx ins (errs, t, seen) = (errs', t', seen') \<Longrightarrow> e \<in> set errs' \<Longrightarrow>
     e \<in> set errs \<or> kind e \<in> {UTXO_NOT_FOUND, NEGATIVE_AMOUNT, INVALID_SIGNATURE,
           DOUBLE_SPENDING}"
proof (induction ins arbitrary: errs t seen)
  case Nil
  then show ?case by simp
next
  case (Cons a ins)
  obtain e1 t1 s1 where step: "validateInput this tx a (errs, t, seen) = (e1, t1, s1)"
    by (cases "validateInput this tx a (errs, t, seen)") auto
  with Cons.prems(1) have rest: "validateInputs this tx ins (e1, t1, s1) = (errs', t', seen')"
    by simp
  from Cons.IH [OF rest Cons.prems(2)] validateInput_kinds [OF step, of e]
  show ?case by blast
qed




subsection \<open>Double spending\<close>

lemma getUTXOKey_inj: "getUTXOKey a = getUTXOKey b \<longleftrightarrow> a = b"
  by (cases a, cases b) (simp add: getUTXOKey_def)

lemma length_map_filter:
  "length (List.map_filter f xs) = length (filter (\<lambda>x. f x \<noteq> None) xs)"
  by (induction xs) (auto simp: List.map_filter_simps split: option.splits)

lemma validateBalance_ds_count: "ds_count (validateBalance t tx) = 0"
proof -
  obtain new where "\<forall>e \<in> set new. kind e = NEGATIVE_AMOUNT"
    "validateBalance t tx =
       new @ (if t \<noteq> outputs_sum tx
              then [createValidationError AMOUNT_MISMATCH
                 [Lit ''AMOUNTS MISMATCH: '', Num t, Lit '' != '', Num (outputs_sum tx)]]
              else [])"
    using validateBalance_eq [of t tx] by blast
  then show ?thesis
    by (auto simp: ds_count_def createValidationError_def filter_empty_conv)
qed

lemma validateNonEmpty_ds_count: "ds_count (validateNonEmptyInputsAndOutputs tx) = 0"
proof -
  have "\<forall>e \<in> set (validateNonEmptyInputsAndOutputs tx). kind e \<noteq> DOUBLE_SPENDING"
    using validateNonEmpty_kinds [of _ tx] by fastforce
  then show ?thesis by (simp add: ds_count_def filter_empty_conv)
qed

lemma filter_swap: "filter P (filter Q xs) = filter Q (filter P xs)"
  by (induction xs) auto

lemma filter_filter_implied:
  "(\<And>x. Q x \<Longrightarrow> P x) \<Longrightarrow> filter Q (filter P xs) = filter Q xs"
  by (induction xs) auto

lemma ds_count_validateTransaction:
  "ds_count (errors (validateTransaction this tx)) =
     length (filter (\<lambda>i. lookup this i \<noteq> None) (inputs tx)) -
     card (utxoId ` {i \<in> set (inputs tx). lookup this i \<noteq> None})"
proof -
  obtain errs1 seen where st:
    "validateInputs this tx (inputs tx) (validateNonEmptyInputsAndOutputs tx, 0, {}) =
       (errs1, inputs_sum this tx, seen)"
    and errs: "errors (validateTransaction this tx) =
       errs1 @ validateBalance (inputs_sum this tx) tx"
    by (rule validateTransaction_eq)
  have inv: "finite seen \<and>
      seen = {} \<union> (\<lambda>i. getUTXOKey (utxoId i)) ` {i \<in> set (inputs tx). lookup this i \<noteq> None} \<and>
      ds_count errs1 + card seen = ds_count (validateNonEmptyInputsAndOutputs tx) + card ({} :: template set) +
        length (List.map_filter (lookup this) (inputs tx))"
    using validateInputs_ds_count [OF st finite.emptyI] .
  from inv have
    "seen = {} \<union> (\<lambda>i. getUTXOKey (utxoId i)) ` {i \<in> set (inputs tx). lookup this i \<noteq> None}"
    by (rule conjunct2 [THEN conjunct1])
  then have
    seen: "seen = (\<lambda>i. getUTXOKey (utxoId i)) ` {i \<in> set (inputs tx). lookup this i \<noteq> None}"
    by simp
  from inv have "ds_count errs1 + card seen =
      ds_count (validateNonEmptyInputsAndOutputs tx) + card ({} :: template set) +
        length (List.map_filter (lookup this) (inputs tx))"
    by (rule conjunct2 [THEN conjunct2])
  then have
    cnt: "ds_count errs1 + card seen = length (List.map_filter (lookup this) (inputs tx))"
    by (simp add: validateNonEmpty_ds_count)
  have "seen = getUTXOKey ` utxoId ` {i \<in> set (inputs tx). lookup this i \<noteq> None}"
    by (simp add: seen image_image)
  moreover have "inj_on getUTXOKey (utxoId ` {i \<in> set (inputs tx). lookup this i \<noteq> None})"
    by (rule inj_onI) (simp add: getUTXOKey_inj)
  ultimately have "card seen = card (utxoId ` {i \<in> set (inputs tx). lookup this i \<noteq> None})"
    by (simp add: card_image)
  with cnt show ?thesis
    by (simp add: errs validateBalance_ds_count length_map_filter)
qed

text \<open>
  Claim C6. When exactly two inputs refer to the same \<open>(txId, outputIndex)\<close>, that UTXO
  is in the pool and no other UTXO is referred to twice, the result holds exactly one
  \<open>DOUBLE_SPENDING\<close> error. A transaction of exactly two such inputs is the case where
  there are no other inputs.
\<close>

theorem one_double_spending_error:
  assumes found: "getUTXO (utxoPool this) (txId u) (outputIndex u) = Some utxo"
    and two: "length (filter (\<lambda>i. utxoId i = u) (inputs tx)) = 2"
    and others: "distinct (map utxoId (filter (\<lambda>i. utxoId i \<noteq> u) (inputs tx)))"
  shows "length (filter (\<lambda>e. kind e = DOUBLE_SPENDING) (errors (validateTransaction this tx))) = 1"
proof -
  let ?P = "\<lambda>i. lookup this i \<noteq> None"
  let ?ins = "inputs tx"
  let ?rest = "filter (\<lambda>i. utxoId i \<noteq> u) (filter ?P ?ins)"
  have P: "?P i" if "utxoId i = u" for i
    using found that by (simp add: lookup_def)
  have "filter (\<lambda>i. utxoId i = u) (filter ?P ?ins) = filter (\<lambda>i. utxoId i = u) ?ins"
    by (rule filter_filter_implied) (rule P)
  then have l2: "length (filter (\<lambda>i. utxoId i = u) (filter ?P ?ins)) = 2"
    using two by simp
  have len: "length (filter ?P ?ins) = 2 + length ?rest"
    using sum_length_filter_compl [of "\<lambda>i. utxoId i = u" "filter ?P ?ins"] l2 by simp
  have dist: "distinct (map utxoId ?rest)"
    unfolding filter_swap [of "\<lambda>i. utxoId i \<noteq> u" ?P]
    by (rule distinct_map_filter [OF others])
  from two have "filter (\<lambda>i. utxoId i = u) ?ins \<noteq> []" by auto
  then obtain i0 where "i0 \<in> set (filter (\<lambda>i. utxoId i = u) ?ins)"
    by (meson last_in_set)
  then have i0: "i0 \<in> set ?ins" "utxoId i0 = u" by simp_all
  have "utxoId ` {i \<in> set ?ins. ?P i} = insert u (set (map utxoId ?rest))"
    using i0 P by (auto simp: image_iff)
  moreover have "u \<notin> set (map utxoId ?rest)" by auto
  ultimately have "card (utxoId ` {i \<in> set ?ins. ?P i}) = Suc (card (set (map utxoId ?rest)))"
    by simp
  also have "\<dots> = Suc (length ?rest)"
    using distinct_card [OF dist] by simp
  finally have "ds_count (errors (validateTransaction this tx)) = 1"
    using len by (simp add: ds_count_validateTransaction)
  then show ?thesis by (simp add: ds_count_def)
qed

subsection \<open>The message that is verified\<close>

lemma validateInput_cong:
  assumes "utxoPool this' = utxoPool this" "JSON_stringify this' = JSON_stringify this"
    and "verify this' (createTransactionDataForSigning this tx) (signature input) (owner input) =
         verify this (createTransactionDataForSigning this tx) (signature input) (owner input)"
  shows "validateInput this' tx input st = validateInput this tx input st"
proof -
  have "createTransactionDataForSigning this' tx = createTransactionDataForSigning this tx"
    by (simp add: createTransactionDataForSigning_def assms(2))
  with assms(3) have sig:
    "validateInputSignature this' tx input = validateInputSignature this tx input"
    by (intro ext) (simp add: validateInputSignature_def)
  show ?thesis
    unfolding validateInput_def sig assms(1) by (rule refl)
qed

lemma validateInputs_cong:
  assumes "utxoPool this' = utxoPool this" "JSON_stringify this' = JSON_stringify this"
  shows "\<forall>i \<in> set ins.
      verify this' (createTransactionDataForSigning this tx) (signature i) (owner i) =
      verify this (createTransactionDataForSigning this tx) (signature i) (owner i) \<Longrightarrow>
    validateInputs this' tx ins st = validateInputs this tx ins st"
proof (induction ins arbitrary: st)
  case Nil
  show ?case by simp
next
  case (Cons a ins)
  from Cons.prems have
    "verify this' (createTransactionDataForSigning this tx) (signature a) (owner a) =
     verify this (createTransactionDataForSigning this tx) (signature a) (owner a)"
    by simp
  from validateInput_cong [OF assms this] Cons.IH Cons.prems show ?case by simp
qed



theorem one_double_spending_error_witness:
  "getUTXO (utxoPool sample_validator) (txId (utxoId sample_input))
     (outputIndex (utxoId sample_input)) = Some sample_utxo \<and>
   length (filter (\<lambda>i. utxoId i = utxoId sample_input)
     (inputs (sample_tx\<lparr>inputs := [sample_input, sample_input]\<rparr>))) = 2 \<and>
   distinct (map utxoId (filter (\<lambda>i. utxoId i \<noteq> utxoId sample_input)
     (inputs (sample_tx\<lparr>inputs := [sample_input, sample_input]\<rparr>)))) \<and>
   length (filter (\<lambda>e. kind e = DOUBLE_SPENDING)
     (errors (validateTransaction sample_validator
        (sample_tx\<lparr>inputs := [sample_input, sample_input]\<rparr>)))) = 1"
proof -
  have a: "getUTXO (utxoPool sample_validator) (txId (utxoId sample_input))
     (outputIndex (utxoId sample_input)) = Some sample_utxo"
    by (simp add: sample_validator_def sample_input_def)
  have b: "length (filter (\<lambda>i. utxoId i = utxoId sample_input)
     (inputs (sample_tx\<lparr>inputs := [sample_input, sample_input]\<rparr>))) = 2"
    by simp
  have c: "distinct (map utxoId (filter (\<lambda>i. utxoId i \<noteq> utxoId sample_input)
     (inputs (sample_tx\<lparr>inputs := [sample_input, sample_input]\<rparr>))))"
    by simp
  from one_double_spending_error [OF a b c] a b c show ?thesis by simp
qed




end
